theory Spec2Isabelle
  imports Complex_Main "HOL-Library.AList" "HOL-Library.Char_ord" "HOL-Library.List_Lexorder"
begin

section \<open>Data model of the load-test framework\<close>

text \<open>
  The framework of \<^verbatim>\<open>src/load-test-framework.js\<close> registers HTTP steps, replays them in
  virtual users (\<^verbatim>\<open>runTest\<close>), wave after wave (\<^verbatim>\<open>runLoadTest\<close>), and
  \<^verbatim>\<open>src/index.js\<close> aggregates the collected data into a report.

  An axios response is an object with a \<^verbatim>\<open>status\<close> and, usually, a \<^verbatim>\<open>data\<close>
  property; the body is kept in its serialised form. A rejected axios promise carries an
  error whose \<^verbatim>\<open>response\<close> property is the response of the server when there was one
  (a status outside 2xx) and is undefined when the request never got an answer.
\<close>

record response =
  status :: int
  data :: "string option"

datatype axios_outcome = Fulfilled response | Rejected "response option"

text \<open>
  What one request of a virtual user meets: the way the axios promise settles and the
  wall-clock time between the two readings of \<^verbatim>\<open>Date.now()\<close> around it.
\<close>

record exchange =
  outcome :: axios_outcome
  elapsed :: int

text \<open>
  The messages of the errors are built from the texts of chai and of the user's assertion;
  the model keeps which check produced them.
\<close>

datatype check_failure = StatusCodeCheck | UserAssertionCheck

text \<open>
  The error \<^verbatim>\<open>abortTestIfNecessary\<close> rejects with: its message quotes the error of the
  step data it was given.
\<close>

datatype abort_error = AbortingTest "check_failure option"

record step =
  name :: string
  isHttps :: bool
  http_method :: string
  url :: string
  body :: "string option"
  headers :: "(string \<times> string) list"
  expectedResponseCode :: int
  assertionFunction :: "response \<Rightarrow> bool"
  sleepBeforeNextStepInMs :: int

record step_data =
  responseTime :: int
  responseStatusCode :: "int option"
  sd_succeeded :: bool
  sd_error :: "check_failure option"
  step :: step

record test_data =
  test_id :: string
  stepsData :: "step_data list"
  succeeded :: bool
  error :: "abort_error option"
  repetition :: "int option"

datatype framework_error =
    MissingParameter string
  | InvalidParameter string
  | NoSteps

section \<open>Registering steps\<close>

text \<open>\<^verbatim>\<open>url.indexOf(pattern)\<close>: the first position where the pattern occurs, or -1.\<close>

fun indexOf_from :: "string \<Rightarrow> string \<Rightarrow> nat \<Rightarrow> int" where
  "indexOf_from [] pat i = (if pat = [] then int i else - 1)"
| "indexOf_from (c # cs) pat i =
     (if take (length pat) (c # cs) = pat then int i else indexOf_from cs pat (Suc i))"

definition indexOf :: "string \<Rightarrow> string \<Rightarrow> int" where
  "indexOf s pat = indexOf_from s pat 0"

definition normalizeUrl :: "string \<Rightarrow> string \<Rightarrow> string" where
  "normalizeUrl u protocol =
     (let hasProtocol = (indexOf u ''http'' \<noteq> - 1)
      in if hasProtocol then u else protocol @ ''://'' @ u)"

section \<open>Objects used as dictionaries\<close>

text \<open>
  The dictionaries of the program are plain objects, created by \<^verbatim>\<open>{}\<close> and filled with
  numbers or strings. Such an object is kept as the association list of its own properties
  in the order in which they were created; \<^const>\<open>map_of\<close> reads an own property.

  An assignment \<^verbatim>\<open>obj[k] = v\<close> creates the own property or replaces its value. The name
  \<^verbatim>\<open>__proto__\<close> is the exception: it is an accessor of the prototype, whose setter
  ignores a value that is not an object, so the assignment changes nothing.
\<close>

definition set_property :: "string \<Rightarrow> 'v \<Rightarrow> (string \<times> 'v) list \<Rightarrow> (string \<times> 'v) list" where
  "set_property k v obj = (if k = ''__proto__'' then obj else AList.update k v obj)"

text \<open>
  A call \<^verbatim>\<open>obj.hasOwnProperty(k)\<close> looks the method up on the object first: once the object
  has an own property named \<^verbatim>\<open>hasOwnProperty\<close>, whose value is a number here, the call
  throws a \<^verbatim>\<open>TypeError\<close>. Otherwise the method of the prototype answers whether \<open>k\<close> is
  an own property.
\<close>

datatype js_error = TypeError

definition hasOwnProperty :: "(string \<times> 'v) list \<Rightarrow> string \<Rightarrow> js_error + bool" where
  "hasOwnProperty obj k =
     (if map_of obj ''hasOwnProperty'' \<noteq> None then Inl TypeError else Inr (map_of obj k \<noteq> None))"

text \<open>
  \<^verbatim>\<open>Object.keys\<close> lists the own properties whose names are array indices first, by
  ascending index, and then the others in the order of their creation. An array index is
  the decimal text, without a leading zero, of a number below \<open>2\<^sup>3\<^sup>2 - 1\<close>.
\<close>

definition index_value :: "string \<Rightarrow> nat" where
  "index_value k = foldl (\<lambda>n c. 10 * n + (of_char c - 48)) 0 k"

definition is_array_index :: "string \<Rightarrow> bool" where
  "is_array_index k =
     (k \<noteq> [] \<and> list_all (\<lambda>c. c \<in> set ''0123456789'') k
      \<and> (k = ''0'' \<or> hd k \<noteq> CHR ''0'') \<and> index_value k < 4294967295)"

definition Object_keys :: "(string \<times> 'v) list \<Rightarrow> string list" where
  "Object_keys obj =
     (let names = map fst obj
      in sort_key index_value (filter is_array_index names)
         @ filter (\<lambda>k. \<not> is_array_index k) names)"

definition Object_assign :: "(string \<times> string) list \<Rightarrow> (string \<times> string) list \<Rightarrow> (string \<times> string) list" where
  "Object_assign target source = foldl (\<lambda>acc kv. set_property (fst kv) (snd kv) acc) target source"

section \<open>The registration of a step\<close>

definition allowedMethods :: "string list" where
  "allowedMethods = [''get'', ''head'', ''post'', ''put'', ''patch'', ''delete'']"

definition jsonHeaders :: "(string \<times> string) list" where
  "jsonHeaders = [(''Content-Type'', ''application/json''), (''Accept-Type'', ''application/json'')]"

text \<open>
  \<^verbatim>\<open>addStep\<close> receives the parameters after their defaults are filled in; a parameter that
  is not given is the empty string or 0, which are falsy like \<^verbatim>\<open>undefined\<close>. The state it
  changes, \<^verbatim>\<open>this.steps\<close>, is passed and returned.
\<close>

definition addStep :: "step \<Rightarrow> step list \<Rightarrow> framework_error + step list" where
  "addStep p steps =
     (if name p = [] then Inl (MissingParameter ''name'')
      else if http_method p = [] then Inl (MissingParameter ''method'')
      else if url p = [] then Inl (MissingParameter ''url'')
      else if sleepBeforeNextStepInMs p < 0 then Inl (InvalidParameter ''sleepBeforeNextStepInMs'')
      else
        let normalizedUrl = normalizeUrl (url p) (if isHttps p then ''https'' else ''http'')
        in if expectedResponseCode p = 0 \<or> expectedResponseCode p < 100 \<or> expectedResponseCode p \<ge> 600
           then Inl (InvalidParameter ''expectedResponseCode'')
           else if find (\<lambda>allowedMethod. allowedMethod = http_method p) allowedMethods = None
           then Inl (InvalidParameter ''method'')
           else Inr (steps @ [p\<lparr>url := normalizedUrl, headers := Object_assign jsonHeaders (headers p)\<rparr>]))"

section \<open>Running one step\<close>

definition openHttpRequest :: "axios_outcome \<Rightarrow> response option" where
  "openHttpRequest settled =
     (case settled of Fulfilled res \<Rightarrow> Some res | Rejected err_response \<Rightarrow> err_response)"

definition assertStatusCode :: "response option \<Rightarrow> int \<Rightarrow> check_failure + response" where
  "assertStatusCode res expectedStatusCode =
     (case res of
        None \<Rightarrow> Inl StatusCodeCheck
      | Some r \<Rightarrow> if status r = expectedStatusCode then Inr r else Inl StatusCodeCheck)"

definition applyUserAssertions :: "response \<Rightarrow> (response \<Rightarrow> bool) \<Rightarrow> check_failure + response" where
  "applyUserAssertions res f = (if f res then Inr res else Inl UserAssertionCheck)"

definition defaultAssertionFunction :: "response \<Rightarrow> bool" where
  "defaultAssertionFunction res = (data res \<noteq> None)"

definition runStep :: "step \<Rightarrow> exchange \<Rightarrow> step_data" where
  "runStep s ex =
     (let res = openHttpRequest (outcome ex);
          stepData = \<lparr>responseTime = elapsed ex,
                      responseStatusCode = (case res of None \<Rightarrow> None | Some r \<Rightarrow> Some (status r)),
                      sd_succeeded = True, sd_error = None, step = s\<rparr>
      in case assertStatusCode res (expectedResponseCode s) of
           Inl e \<Rightarrow> stepData\<lparr>sd_succeeded := False, sd_error := Some e\<rparr>
         | Inr r \<Rightarrow>
             (case applyUserAssertions r (assertionFunction s) of
                Inl e \<Rightarrow> stepData\<lparr>sd_succeeded := False, sd_error := Some e\<rparr>
              | Inr _ \<Rightarrow> stepData))"

section \<open>Running one virtual user\<close>

text \<open>
  What a virtual user awaits: the request of the step at a position of the registered
  sequence (\<^verbatim>\<open>openHttpRequest\<close> in \<^verbatim>\<open>runStep\<close>) and the sleep of some milliseconds after
  it. The effects of a run are the moments at which such a call is made and at which its
  promise resolves, in the order in which the chain reaches them.
\<close>

datatype action = Request nat | Sleep nat int

datatype effect = Begins action | Resolved action

text \<open>
  The promise chain \<^verbatim>\<open>steps.reduce((testPromise, step) => testPromise.then(...))\<close>: the
  state is the test data being filled, the rejection the chain carries (if any) and the
  effects so far. A link whose predecessor is rejected is skipped.
\<close>

record chain =
  c_testData :: test_data
  rejection :: "abort_error option"
  effects :: "effect list"

definition storeStepData :: "test_data \<Rightarrow> step_data \<Rightarrow> test_data" where
  "storeStepData td stepData = td\<lparr>stepsData := stepsData td @ [stepData]\<rparr>"

definition abortTestIfNecessary :: "step_data \<Rightarrow> abort_error option" where
  "abortTestIfNecessary stepData =
     (if sd_succeeded stepData then None else Some (AbortingTest (sd_error stepData)))"

definition chain_link :: "(nat \<Rightarrow> exchange) \<Rightarrow> chain \<Rightarrow> nat \<times> step \<Rightarrow> chain" where
  "chain_link axios c istep =
     (case rejection c of
        Some e \<Rightarrow> c
      | None \<Rightarrow>
          let i = fst istep; s = snd istep;
              stepData = runStep s (axios i);
              c1 = c\<lparr>c_testData := storeStepData (c_testData c) stepData,
                     effects := effects c @ [Begins (Request i), Resolved (Request i)]\<rparr>
          in (case abortTestIfNecessary stepData of
                Some e \<Rightarrow> c1\<lparr>rejection := Some e\<rparr>
              | None \<Rightarrow>
                  c1\<lparr>effects := effects c1 @ [Begins (Sleep i (sleepBeforeNextStepInMs s)),
                                               Resolved (Sleep i (sleepBeforeNextStepInMs s))]\<rparr>))"

definition run_chain :: "(nat \<Rightarrow> exchange) \<Rightarrow> string \<Rightarrow> step list \<Rightarrow> chain" where
  "run_chain axios uid steps =
     foldl (chain_link axios)
       \<lparr>c_testData = \<lparr>test_id = uid, stepsData = [], succeeded = True, error = None, repetition = None\<rparr>,
        rejection = None, effects = []\<rparr>
       (enumerate 0 steps)"

definition settle :: "chain \<Rightarrow> test_data" where
  "settle c =
     (case rejection c of
        Some e \<Rightarrow> (c_testData c)\<lparr>succeeded := False, error := Some e\<rparr>
      | None \<Rightarrow> c_testData c)"

definition runTest :: "(nat \<Rightarrow> exchange) \<Rightarrow> string \<Rightarrow> step list \<Rightarrow> framework_error + test_data" where
  "runTest axios uid steps =
     (if length steps < 1 then Inl NoSteps else Inr (settle (run_chain axios uid steps)))"

definition runTest_effects :: "(nat \<Rightarrow> exchange) \<Rightarrow> string \<Rightarrow> step list \<Rightarrow> effect list" where
  "runTest_effects axios uid steps = effects (run_chain axios uid steps)"

section \<open>The wave scheduler\<close>

text \<open>
  What the run meets from outside, per repetition and thread: the exchanges of the requests
  (by position of the step), the identifier \<^verbatim>\<open>generateUid\<close> draws and the delay
  \<^verbatim>\<open>getRandomIntUntil\<close> draws for the thread.
\<close>

record environment =
  env_axios :: "int \<Rightarrow> nat \<Rightarrow> nat \<Rightarrow> exchange"
  env_generateUid :: "int \<Rightarrow> nat \<Rightarrow> string"
  env_getRandomIntUntil :: "int \<Rightarrow> nat \<Rightarrow> int \<Rightarrow> int"

text \<open>The parameters of \<^verbatim>\<open>runLoadTest\<close> after their defaults are filled in, as integers.\<close>

record suite_params =
  numOfThreads :: int
  numOfRepetitions :: int
  maxTimeBeforeStartingInMs :: int

text \<open>
  \<^verbatim>\<open>Promise.all\<close>: the values in the order of the promises, or a rejection when one of
  them rejects.
\<close>

fun Promise_all :: "('e + 'a) list \<Rightarrow> 'e + 'a list" where
  "Promise_all [] = Inr []"
| "Promise_all (p # ps) =
     (case p of
        Inl e \<Rightarrow> Inl e
      | Inr v \<Rightarrow> (case Promise_all ps of Inl e \<Rightarrow> Inl e | Inr vs \<Rightarrow> Inr (v # vs)))"

text \<open>
  The loop \<^verbatim>\<open>for (let i = 0; i < numOfThreads; i++)\<close>: each thread sleeps its random
  delay, which changes no value, and then runs the test.
\<close>

definition testThreads :: "environment \<Rightarrow> step list \<Rightarrow> suite_params \<Rightarrow> int \<Rightarrow> (framework_error + test_data) list" where
  "testThreads env steps params currentRepetition =
     map (\<lambda>i. runTest (env_axios env currentRepetition i) (env_generateUid env currentRepetition i) steps)
       [0..<nat (numOfThreads params)]"

definition addFieldRepetition :: "test_data list \<Rightarrow> int \<Rightarrow> test_data list" where
  "addFieldRepetition testsData repetitionIndex =
     map (\<lambda>testData. testData\<lparr>repetition := Some repetitionIndex\<rparr>) testsData"

function runLoadTest :: "environment \<Rightarrow> step list \<Rightarrow> suite_params \<Rightarrow> int \<Rightarrow> test_data list \<Rightarrow> framework_error + test_data list" where
  "runLoadTest env steps params currentRepetition testDataAccumulator =
     (if numOfThreads params < 1 then Inl (InvalidParameter ''numOfThreads'')
      else if numOfRepetitions params < 1 then Inl (InvalidParameter ''numOfRepetitions'')
      else if maxTimeBeforeStartingInMs params < 0 then Inl (InvalidParameter ''maxTimeBeforeStartingInMs'')
      else if currentRepetition > numOfRepetitions params then Inr testDataAccumulator
      else
        (case Promise_all (testThreads env steps params currentRepetition) of
           Inl e \<Rightarrow> Inl e
         | Inr testsData \<Rightarrow>
             runLoadTest env steps params (currentRepetition + 1)
               (testDataAccumulator @ addFieldRepetition testsData currentRepetition)))"
  by pat_completeness auto
termination
  by (relation "measure (\<lambda>(env, steps, params, currentRepetition, acc).
         nat (numOfRepetitions params + 1 - currentRepetition))") auto

declare runLoadTest.simps [simp del]

section \<open>The aggregation of the report\<close>

text \<open>
  JavaScript numbers. The arithmetic of the report adds elapsed times, which are integers,
  and divides by a count; the model computes with exact rationals in place of the rounded
  doubles, and keeps the values a division by zero gives.
\<close>

datatype jsnum = Num rat | PosInfinity | NegInfinity | NaN

fun js_add :: "jsnum \<Rightarrow> jsnum \<Rightarrow> jsnum" where
  "js_add (Num a) (Num b) = Num (a + b)"
| "js_add NaN y = NaN"
| "js_add x NaN = NaN"
| "js_add PosInfinity NegInfinity = NaN"
| "js_add NegInfinity PosInfinity = NaN"
| "js_add PosInfinity y = PosInfinity"
| "js_add NegInfinity y = NegInfinity"
| "js_add (Num a) y = y"

text \<open>The division of a number by a count (the length of an array, a number of executions).\<close>

fun js_div :: "jsnum \<Rightarrow> nat \<Rightarrow> jsnum" where
  "js_div (Num a) n =
     (if n = 0 then (if a = 0 then NaN else if 0 < a then PosInfinity else NegInfinity)
      else Num (a / of_nat n))"
| "js_div x n = x"

fun js_times :: "jsnum \<Rightarrow> nat \<Rightarrow> jsnum" where
  "js_times (Num a) n = Num (a * of_nat n)"
| "js_times NaN n = NaN"
| "js_times x n = (if n = 0 then NaN else x)"

text \<open>The values that are falsy for \<^verbatim>\<open>||\<close>.\<close>

definition falsy :: "jsnum \<Rightarrow> bool" where
  "falsy x = (x = Num 0 \<or> x = NaN)"

definition computeAvg :: "jsnum list \<Rightarrow> jsnum" where
  "computeAvg arr = js_div (foldl (\<lambda>acc v. js_add acc v) (Num 0) arr) (length arr)"

definition computeAvgResponseTimeForTest :: "test_data \<Rightarrow> jsnum" where
  "computeAvgResponseTimeForTest testData =
     (let stepsResponseTime = map (\<lambda>stepData. Num (of_int (responseTime stepData))) (stepsData testData)
      in computeAvg stepsResponseTime)"

definition computeAvgResponseTimeForTests :: "test_data list \<Rightarrow> jsnum" where
  "computeAvgResponseTimeForTests testsData =
     (let avgResponseTimes = map computeAvgResponseTimeForTest testsData
      in computeAvg avgResponseTimes)"

text \<open>\<^verbatim>\<open>stepsData[stepsData.length - 1]\<close>, which is undefined for an empty array.\<close>

definition getStepDataWithError :: "test_data \<Rightarrow> step_data option" where
  "getStepDataWithError testData =
     (let lastStepIndex = int (length (stepsData testData)) - 1
      in if 0 \<le> lastStepIndex \<and> lastStepIndex < int (length (stepsData testData))
         then Some (stepsData testData ! nat lastStepIndex) else None)"

definition getStepWithError :: "test_data \<Rightarrow> js_error + step" where
  "getStepWithError testData =
     (case getStepDataWithError testData of None \<Rightarrow> Inl TypeError | Some stepData \<Rightarrow> Inr (step stepData))"

text \<open>The decimal text of a count or of a status code.\<close>

definition digit_char :: "nat \<Rightarrow> char" where
  "digit_char d = ''0123456789'' ! d"

fun decimal :: "nat \<Rightarrow> string" where
  "decimal n = (if 10 \<le> n then decimal (n div 10) @ [digit_char (n mod 10)] else [digit_char n])"

definition Number_toString :: "int \<Rightarrow> string" where
  "Number_toString i = (if 0 \<le> i then decimal (nat i) else CHR ''-'' # decimal (nat (- i)))"

definition string_of_statusCode :: "int option \<Rightarrow> string" where
  "string_of_statusCode statusCode =
     (case statusCode of None \<Rightarrow> ''null'' | Some c \<Rightarrow> Number_toString c)"

text \<open>
  \<^verbatim>\<open>if (!obj.hasOwnProperty(k)) obj[k] = 1; else obj[k]++\<close>, the counting step of both
  distributions. The increment reads an own property, which the guard has found.
\<close>

definition count_at :: "(string \<times> nat) list \<Rightarrow> string \<Rightarrow> nat" where
  "count_at obj k = (case map_of obj k of None \<Rightarrow> 0 | Some n \<Rightarrow> n)"

definition count_key :: "(string \<times> nat) list \<Rightarrow> string \<Rightarrow> js_error + (string \<times> nat) list" where
  "count_key acc k =
     (case hasOwnProperty acc k of
        Inl e \<Rightarrow> Inl e
      | Inr has \<Rightarrow>
          if \<not> has then Inr (set_property k 1 acc)
          else Inr (set_property k (Suc (count_at acc k)) acc))"

fun countResponseCodes_forEach :: "test_data list \<Rightarrow> (string \<times> nat) list \<Rightarrow> js_error + (string \<times> nat) list" where
  "countResponseCodes_forEach [] numOfEachResponseCode = Inr numOfEachResponseCode"
| "countResponseCodes_forEach (testData # rest) numOfEachResponseCode =
     (case getStepDataWithError testData of
        None \<Rightarrow> Inl TypeError
      | Some stepWithError \<Rightarrow>
          (case count_key numOfEachResponseCode
                  (''statusCode'' @ string_of_statusCode (responseStatusCode stepWithError)) of
             Inl e \<Rightarrow> Inl e
           | Inr counted \<Rightarrow> countResponseCodes_forEach rest counted))"

definition countResponseCodes :: "test_data list \<Rightarrow> js_error + (string \<times> nat) list" where
  "countResponseCodes testsData = countResponseCodes_forEach testsData []"

text \<open>
  The lines of a distribution: \<^verbatim>\<open>Object.keys(counts).sort()\<close>, then one line per key;
  the default sort compares the keys as strings, code unit by code unit.
\<close>

definition count_text :: "(string \<times> nat) list \<Rightarrow> string \<Rightarrow> string" where
  "count_text counts k = (case map_of counts k of None \<Rightarrow> ''undefined'' | Some n \<Rightarrow> decimal n)"

definition distribution_msg :: "(string \<times> nat) list \<Rightarrow> string" where
  "distribution_msg counts =
     (let keys = sort (Object_keys counts);
          msg = foldl (\<lambda>msg k. msg @ k @ '': '' @ count_text counts k @ ''\<newline>      '') [] keys
      in if msg = [] then ''N/A'' else msg)"

definition generateDistributionReportForStatusCode :: "test_data list \<Rightarrow> js_error + string" where
  "generateDistributionReportForStatusCode testsData =
     (case countResponseCodes testsData of
        Inl e \<Rightarrow> Inl e
      | Inr numOfEachResponseCode \<Rightarrow> Inr (distribution_msg numOfEachResponseCode))"

text \<open>
  \<^verbatim>\<open>testsData.map(getStepDataWithError).map(stepData => stepData.step.name)\<close>, which
  throws at a run without step data.
\<close>

fun stepNamesThatFailed :: "test_data list \<Rightarrow> js_error + string list" where
  "stepNamesThatFailed [] = Inr []"
| "stepNamesThatFailed (testData # rest) =
     (case getStepDataWithError testData of
        None \<Rightarrow> Inl TypeError
      | Some stepData \<Rightarrow>
          (case stepNamesThatFailed rest of
             Inl e \<Rightarrow> Inl e
           | Inr names \<Rightarrow> Inr (name (step stepData) # names)))"

text \<open>The \<^verbatim>\<open>reduce\<close> over the step names, which stops where the callback throws.\<close>

fun count_keys :: "(string \<times> nat) list \<Rightarrow> string list \<Rightarrow> js_error + (string \<times> nat) list" where
  "count_keys acc [] = Inr acc"
| "count_keys acc (stepName # rest) =
     (case count_key acc stepName of Inl e \<Rightarrow> Inl e | Inr counted \<Rightarrow> count_keys counted rest)"

definition countErroredSteps :: "test_data list \<Rightarrow> js_error + (string \<times> nat) list" where
  "countErroredSteps testsData =
     (case stepNamesThatFailed testsData of
        Inl e \<Rightarrow> Inl e
      | Inr names \<Rightarrow> count_keys [] names)"

definition generateDistributionReportForErroredSteps :: "test_data list \<Rightarrow> js_error + string" where
  "generateDistributionReportForErroredSteps testsData =
     (case countErroredSteps testsData of
        Inl e \<Rightarrow> Inl e
      | Inr numOfEachStep \<Rightarrow> Inr (distribution_msg numOfEachStep))"

text \<open>
  The per-step averages. The two objects \<^verbatim>\<open>executionsOfStep\<close> and \<^verbatim>\<open>totalTimeOnStep\<close>
  are threaded through the two nested \<^verbatim>\<open>forEach\<close>. The inner loop reads the properties
  the head of the outer loop has set; for \<^verbatim>\<open>__proto__\<close> nothing was set and what it reads
  is assigned back to no effect.
\<close>

definition executions_of :: "(string \<times> nat) list \<Rightarrow> string \<Rightarrow> nat" where
  "executions_of executionsOfStep k = (case map_of executionsOfStep k of None \<Rightarrow> 0 | Some n \<Rightarrow> n)"

definition total_of :: "(string \<times> jsnum) list \<Rightarrow> string \<Rightarrow> jsnum" where
  "total_of totalTimeOnStep k = (case map_of totalTimeOnStep k of None \<Rightarrow> NaN | Some t \<Rightarrow> t)"

definition count_execution ::
  "string \<Rightarrow> (string \<times> nat) list \<times> (string \<times> jsnum) list \<Rightarrow> test_data
   \<Rightarrow> (string \<times> nat) list \<times> (string \<times> jsnum) list" where
  "count_execution stepName state testData =
     (case find (\<lambda>stepData. name (step stepData) = stepName) (stepsData testData) of
        None \<Rightarrow> state
      | Some currentStepOnTestData \<Rightarrow>
          (set_property stepName (Suc (executions_of (fst state) stepName)) (fst state),
           set_property stepName
             (js_add (total_of (snd state) stepName) (Num (of_int (responseTime currentStepOnTestData))))
             (snd state)))"

definition count_stepName ::
  "test_data list \<Rightarrow> (string \<times> nat) list \<times> (string \<times> jsnum) list \<Rightarrow> string
   \<Rightarrow> js_error + (string \<times> nat) list \<times> (string \<times> jsnum) list" where
  "count_stepName testsData state stepName =
     (case hasOwnProperty (fst state) stepName of
        Inl e \<Rightarrow> Inl e
      | Inr hasExecutions \<Rightarrow>
          let executionsOfStep =
                (if \<not> hasExecutions then set_property stepName 0 (fst state) else fst state)
          in (case hasOwnProperty (snd state) stepName of
                Inl e \<Rightarrow> Inl e
              | Inr hasTotal \<Rightarrow>
                  let totalTimeOnStep =
                        (if \<not> hasTotal then set_property stepName (Num 0) (snd state) else snd state)
                  in Inr (foldl (count_execution stepName) (executionsOfStep, totalTimeOnStep) testsData)))"

text \<open>The outer \<^verbatim>\<open>forEach\<close> over the step names, which stops where a guard throws.\<close>

fun count_stepNames ::
  "test_data list \<Rightarrow> (string \<times> nat) list \<times> (string \<times> jsnum) list \<Rightarrow> string list
   \<Rightarrow> js_error + (string \<times> nat) list \<times> (string \<times> jsnum) list" where
  "count_stepNames testsData state [] = Inr state"
| "count_stepNames testsData state (stepName # rest) =
     (case count_stepName testsData state stepName of
        Inl e \<Rightarrow> Inl e
      | Inr counted \<Rightarrow> count_stepNames testsData counted rest)"

definition computeAvgResponseTimeForEachStep :: "test_data list \<Rightarrow> js_error + (string \<times> jsnum) list" where
  "computeAvgResponseTimeForEachStep testsData =
     (case testsData of
        [] \<Rightarrow> Inl TypeError
      | first # _ \<Rightarrow>
          let stepNames = map (\<lambda>stepData. name (step stepData)) (stepsData first)
          in (case count_stepNames testsData ([], []) stepNames of
                Inl e \<Rightarrow> Inl e
              | Inr counted \<Rightarrow>
                  Inr (foldl (\<lambda>acc stepName.
                         set_property stepName
                           (js_div (total_of (snd counted) stepName) (executions_of (fst counted) stepName))
                           acc)
                       [] stepNames)))"

text \<open>
  The report. \<^verbatim>\<open>printReport\<close> writes a text to the console; the model returns the values
  its templates interpolate, and the \<^verbatim>\<open>TypeError\<close> it throws on data it cannot read.
  An average that is falsy is replaced by the text N/A.
\<close>

datatype shown_average = Average jsnum | NA

definition or_NA :: "jsnum \<Rightarrow> shown_average" where
  "or_NA x = (if falsy x then NA else Average x)"

record report =
  hint :: "(step \<times> check_failure option) option"
  numOfPerformedTests :: nat
  numOfSuccesses :: nat
  numOfFailures :: nat
  errorRate :: jsnum
  avg_all :: jsnum
  avg_successes :: shown_average
  avg_failures :: shown_average
  avg_steps :: "(string \<times> jsnum) list"
  stepFailureDistributionMsg :: string
  errorCodeDistributionMsg :: string

definition reproduction_hint :: "test_data list \<Rightarrow> js_error + (step \<times> check_failure option) option" where
  "reproduction_hint testsThatFailed =
     (let hasErrors = (length testsThatFailed > 0)
      in if hasErrors then
           (case testsThatFailed of
              [] \<Rightarrow> Inr None
            | firstTestThatFailed # _ \<Rightarrow>
                (case getStepWithError firstTestThatFailed of
                   Inl e \<Rightarrow> Inl e
                 | Inr stepWithError \<Rightarrow>
                     (case getStepDataWithError firstTestThatFailed of
                        None \<Rightarrow> Inl TypeError
                      | Some stepDataWithError \<Rightarrow> Inr (Some (stepWithError, sd_error stepDataWithError)))))
         else Inr None)"

definition printReport :: "test_data list \<Rightarrow> js_error + report" where
  "printReport results =
     (let testsThatSucceeded = filter (\<lambda>result. succeeded result) results;
          testsThatFailed = filter (\<lambda>result. \<not> succeeded result) results
      in case reproduction_hint testsThatFailed of
           Inl e \<Rightarrow> Inl e
         | Inr h \<Rightarrow>
             (case computeAvgResponseTimeForEachStep results of
                Inl e \<Rightarrow> Inl e
              | Inr steps \<Rightarrow>
                  (case generateDistributionReportForErroredSteps testsThatFailed of
                     Inl e \<Rightarrow> Inl e
                   | Inr stepMsg \<Rightarrow>
                       (case generateDistributionReportForStatusCode testsThatFailed of
                          Inl e \<Rightarrow> Inl e
                        | Inr codeMsg \<Rightarrow>
                            Inr \<lparr>hint = h,
                                 numOfPerformedTests = length results,
                                 numOfSuccesses = length testsThatSucceeded,
                                 numOfFailures = length testsThatFailed,
                                 errorRate =
                                   js_times (js_div (Num (of_nat (length testsThatFailed))) (length results)) 100,
                                 avg_all = computeAvgResponseTimeForTests results,
                                 avg_successes = or_NA (computeAvgResponseTimeForTests testsThatSucceeded),
                                 avg_failures = or_NA (computeAvgResponseTimeForTests testsThatFailed),
                                 avg_steps = steps,
                                 stepFailureDistributionMsg = stepMsg,
                                 errorCodeDistributionMsg = codeMsg\<rparr>))))"

section \<open>The step results and the effects of a run, in closed form\<close>

text \<open>
  The step data a chain stores when it starts at position \<open>k\<close>: one result per step up to
  and including the first one that failed. The proofs relate the fold of the source to it.
\<close>

fun results_from :: "(nat \<Rightarrow> exchange) \<Rightarrow> nat \<Rightarrow> step list \<Rightarrow> step_data list" where
  "results_from axios k [] = []"
| "results_from axios k (s # ss) =
     (if sd_succeeded (runStep s (axios k)) then runStep s (axios k) # results_from axios (Suc k) ss
      else [runStep s (axios k)])"

text \<open>
  The effects of the link at position \<open>i\<close> that stored the step data \<open>sd\<close>: the request,
  and the sleep of the step's delay if the step data succeeded.
\<close>

definition step_effects :: "nat \<Rightarrow> step_data \<Rightarrow> effect list" where
  "step_effects i sd =
     [Begins (Request i), Resolved (Request i)]
     @ (if sd_succeeded sd
        then [Begins (Sleep i (sleepBeforeNextStepInMs (step sd))),
              Resolved (Sleep i (sleepBeforeNextStepInMs (step sd)))]
        else [])"

fun trace_from :: "nat \<Rightarrow> step_data list \<Rightarrow> effect list" where
  "trace_from k [] = []"
| "trace_from k (sd # sds) = step_effects k sd @ trace_from (Suc k) sds"

text \<open>The position of the step an effect belongs to.\<close>

fun action_index :: "action \<Rightarrow> nat" where
  "action_index (Request i) = i"
| "action_index (Sleep i d) = i"

fun effect_index :: "effect \<Rightarrow> nat" where
  "effect_index (Begins a) = action_index a"
| "effect_index (Resolved a) = action_index a"

text \<open>
  The test data of thread \<open>i\<close> of repetition \<open>r\<close>, and the runs a wave hands to the
  accumulator: one per thread, in the order of the threads, stamped with the repetition.
\<close>

definition virtual_user :: "environment \<Rightarrow> step list \<Rightarrow> int \<Rightarrow> nat \<Rightarrow> test_data" where
  "virtual_user env steps r i = settle (run_chain (env_axios env r i) (env_generateUid env r i) steps)"

definition wave_runs :: "environment \<Rightarrow> step list \<Rightarrow> suite_params \<Rightarrow> int \<Rightarrow> test_data list" where
  "wave_runs env steps params r =
     map (\<lambda>i. (virtual_user env steps r i)\<lparr>repetition := Some r\<rparr>) [0..<nat (numOfThreads params)]"

text \<open>
  The exchange in which axios fulfils with the response that a rejection carried; an
  exchange that is fulfilled, or rejected without a response, is left as it is.
\<close>

definition as_fulfilled :: "exchange \<Rightarrow> exchange" where
  "as_fulfilled ex =
     (case outcome ex of
        Fulfilled r \<Rightarrow> ex
      | Rejected None \<Rightarrow> ex
      | Rejected (Some r) \<Rightarrow> ex\<lparr>outcome := Fulfilled r\<rparr>)"

section \<open>What the aggregation is compared with\<close>

text \<open>
  The names that a plain object holds like any other key: all but the two that the
  section on objects singles out.
\<close>

definition ordinary :: "string \<Rightarrow> bool" where
  "ordinary k = (k \<noteq> ''__proto__'' \<and> k \<noteq> ''hasOwnProperty'')"

text \<open>The counting step on a dictionary of ordinary names, where nothing throws.\<close>

definition tally_key :: "(string \<times> nat) list \<Rightarrow> string \<Rightarrow> (string \<times> nat) list" where
  "tally_key acc k =
     (case map_of acc k of None \<Rightarrow> AList.update k 1 acc | Some n \<Rightarrow> AList.update k (Suc n) acc)"

text \<open>The body of the outer loop of the per-step averages on such a dictionary.\<close>

definition counted_stepName ::
  "test_data list \<Rightarrow> (string \<times> nat) list \<times> (string \<times> jsnum) list \<Rightarrow> string
   \<Rightarrow> (string \<times> nat) list \<times> (string \<times> jsnum) list" where
  "counted_stepName testsData state stepName =
     (let executionsOfStep =
            (if map_of (fst state) stepName = None then AList.update stepName 0 (fst state) else fst state);
          totalTimeOnStep =
            (if map_of (snd state) stepName = None then AList.update stepName (Num 0) (snd state)
             else snd state)
      in foldl (count_execution stepName) (executionsOfStep, totalTimeOnStep) testsData)"

text \<open>
  The two keys a failed run is tallied under: the status code and the step name of its last
  step data.
\<close>

definition status_key :: "test_data \<Rightarrow> string" where
  "status_key td = ''statusCode'' @ string_of_statusCode (responseStatusCode (last (stepsData td)))"

definition failed_step_name :: "test_data \<Rightarrow> string" where
  "failed_step_name td = name (step (last (stepsData td)))"

text \<open>
  The text of a distribution over a list of keys, one per failed run: the distinct keys in
  ascending order, each with the number of times it occurs.
\<close>

definition tally_line :: "string list \<Rightarrow> string \<Rightarrow> string" where
  "tally_line ks k = k @ '': '' @ decimal (count_list ks k) @ ''\<newline>      ''"

definition expected_distribution :: "string list \<Rightarrow> string" where
  "expected_distribution ks =
     (if ks = [] then ''N/A'' else concat (map (tally_line ks) (sorted_list_of_set (set ks))))"

text \<open>
  The elapsed times of the step data named \<open>S\<close>: of all of them, run after run, and of
  the first one of each run that has one.
\<close>

definition all_times :: "string \<Rightarrow> test_data list \<Rightarrow> int list" where
  "all_times S tds =
     concat (map (\<lambda>td. map responseTime (filter (\<lambda>sd. name (step sd) = S) (stepsData td))) tds)"

definition first_times :: "string \<Rightarrow> test_data list \<Rightarrow> int list" where
  "first_times S tds =
     concat (map (\<lambda>td. take 1 (map responseTime (filter (\<lambda>sd. name (step sd) = S) (stepsData td)))) tds)"

definition mean :: "int list \<Rightarrow> rat" where
  "mean xs = of_int (sum_list xs) / of_nat (length xs)"

text \<open>
  What the inner loop of the per-step averages finds: the step data of a run for a step
  name as \<^verbatim>\<open>Array.prototype.find\<close> returns it, the step data found over the runs, and
  their elapsed times.
\<close>

definition result_for :: "string \<Rightarrow> test_data \<Rightarrow> step_data option" where
  "result_for S td = find (\<lambda>stepData. name (step stepData) = S) (stepsData td)"

definition results_named :: "string \<Rightarrow> test_data list \<Rightarrow> step_data list" where
  "results_named S tds = List.map_filter (result_for S) tds"

definition times_for :: "string \<Rightarrow> test_data list \<Rightarrow> int list" where
  "times_for S tds = map responseTime (results_named S tds)"

section \<open>Example steps and transports\<close>

definition example_step :: "string \<Rightarrow> int \<Rightarrow> int \<Rightarrow> step" where
  "example_step n code delay =
     \<lparr>name = n, isHttps = False, http_method = ''get'', url = ''http://localhost:8082/api'',
      body = None, headers = jsonHeaders, expectedResponseCode = code,
      assertionFunction = defaultAssertionFunction, sleepBeforeNextStepInMs = delay\<rparr>"

text \<open>
  A server that answers with a status code after some milliseconds: axios fulfils for a
  status from 200 to 299 and otherwise rejects with the response in the error.
\<close>

definition answering :: "int \<Rightarrow> int \<Rightarrow> exchange" where
  "answering code ms =
     (let res = \<lparr>status = code, data = Some ''{}''\<rparr>
      in \<lparr>outcome = (if 200 \<le> code \<and> code < 300 then Fulfilled res else Rejected (Some res)),
          elapsed = ms\<rparr>)"

definition always_200 :: "nat \<Rightarrow> exchange" where
  "always_200 i = answering 200 50"

definition always_500 :: "nat \<Rightarrow> exchange" where
  "always_500 i = answering 500 30"

text \<open>Two steps, the second of which expects 201.\<close>

definition two_steps :: "step list" where
  "two_steps = [example_step ''login'' 200 1000, example_step ''create'' 201 500]"

definition instant_200 :: "nat \<Rightarrow> exchange" where
  "instant_200 i = answering 200 0"

text \<open>The first request is answered, the second one is refused by the network.\<close>

definition refused_at_second :: "nat \<Rightarrow> exchange" where
  "refused_at_second i =
     (if i = 0 then answering 200 50 else \<lparr>outcome = Rejected None, elapsed = 3\<rparr>)"

text \<open>The rejection of axios for a server that answers 404.\<close>

definition rejected_with_404 :: exchange where
  "rejected_with_404 =
     \<lparr>outcome = Rejected (Some \<lparr>status = 404, data = Some ''Not Found''\<rparr>), elapsed = 12\<rparr>"

text \<open>Three threads that are answered in 50, 60 and 70 ms, in two repetitions.\<close>

definition scenario_env :: environment where
  "scenario_env =
     \<lparr>env_axios = (\<lambda>r i k. answering 200 (50 + 10 * int i)),
      env_generateUid = (\<lambda>r i. ''vu-'' @ Number_toString r @ ''-'' @ decimal i),
      env_getRandomIntUntil = (\<lambda>r i m. 0)\<rparr>"

definition three_by_two :: suite_params where
  "three_by_two = \<lparr>numOfThreads = 3, numOfRepetitions = 2, maxTimeBeforeStartingInMs = 0\<rparr>"

definition always_200_slow :: "nat \<Rightarrow> exchange" where
  "always_200_slow i = answering 200 90"

definition instant_500 :: "nat \<Rightarrow> exchange" where
  "instant_500 i = answering 500 0"

definition two_ok_steps :: "step list" where
  "two_ok_steps = [example_step ''login'' 200 1000, example_step ''list'' 200 500]"

definition one_step :: "step list" where
  "one_step = [example_step ''page loads'' 200 0]"

text \<open>
  Three runs: one that passes its two steps in 50 ms each, one that fails at its second
  step after 90 ms per step, and one that fails at its only step, answered 500 in 30 ms.
\<close>

definition run_ok :: test_data where
  "run_ok = settle (run_chain always_200 ''b'' two_ok_steps)"

definition run_failed_create :: test_data where
  "run_failed_create = settle (run_chain always_200_slow ''c'' two_steps)"

definition run_failed_500 :: test_data where
  "run_failed_500 = settle (run_chain always_500 ''a'' one_step)"

definition example_results :: "test_data list" where
  "example_results = [run_ok, run_failed_create, run_failed_500]"

text \<open>
  Runs that fail at their only step, which is named like the accessor of the prototype,
  and like the method the guards call.
\<close>

definition run_failed_proto :: "string \<Rightarrow> test_data" where
  "run_failed_proto uid = settle (run_chain always_500 uid [example_step ''__proto__'' 200 0])"

definition run_failed_hasOwnProperty :: "string \<Rightarrow> test_data" where
  "run_failed_hasOwnProperty uid =
     settle (run_chain always_500 uid [example_step ''hasOwnProperty'' 200 0])"

text \<open>A run of two steps registered under one name, answered after 10 ms and after 30 ms.\<close>

definition ten_then_thirty :: "nat \<Rightarrow> exchange" where
  "ten_then_thirty i = answering 200 (if i = 0 then 10 else 30)"

definition run_same_name_twice :: test_data where
  "run_same_name_twice =
     settle (run_chain ten_then_thirty ''d'' [example_step ''a'' 200 0, example_step ''a'' 200 0])"

text \<open>Runs whose only step is answered at once, with 200 and with 500.\<close>

definition run_instant_ok :: test_data where
  "run_instant_ok = settle (run_chain instant_200 ''z'' one_step)"

definition run_instant_failed :: test_data where
  "run_instant_failed = settle (run_chain instant_500 ''w'' one_step)"

section \<open>Properties of a virtual user\<close>

lemma chain_rejected: "rejection c \<noteq> None \<Longrightarrow> foldl (chain_link axios) c xs = c"
  by (induction xs) (auto simp: chain_link_def)

lemma runStep_step: "step (runStep s ex) = s"
  by (simp add: runStep_def Let_def split: sum.splits)

lemma chain_closed:
  "rejection c = None \<Longrightarrow>
   foldl (chain_link axios) c (enumerate k ss) =
     c\<lparr>c_testData := (c_testData c)\<lparr>stepsData := stepsData (c_testData c) @ results_from axios k ss\<rparr>,
       rejection := (if list_all sd_succeeded (results_from axios k ss) then None
                     else Some (AbortingTest (sd_error (last (results_from axios k ss))))),
       effects := effects c @ trace_from k (results_from axios k ss)\<rparr>"
proof (induction ss arbitrary: c k)
  case Nil
  then show ?case by simp
next
  case (Cons s ss)
  show ?case
  proof (cases "sd_succeeded (runStep s (axios k))")
    case True
    let ?c1 = "chain_link axios c (k, s)"
    have r: "rejection ?c1 = None"
      using True Cons.prems by (simp add: chain_link_def abortTestIfNecessary_def Let_def)
    have c1: "?c1 = c\<lparr>c_testData := storeStepData (c_testData c) (runStep s (axios k)),
                     effects := effects c @ step_effects k (runStep s (axios k))\<rparr>"
      using True Cons.prems
      by (simp add: chain_link_def abortTestIfNecessary_def Let_def step_effects_def runStep_step)
    show ?thesis
      using Cons.IH[OF r, of "Suc k"] True
      by (simp add: c1 storeStepData_def)
  next
    case False
    let ?c1 = "chain_link axios c (k, s)"
    have c1: "?c1 = c\<lparr>c_testData := storeStepData (c_testData c) (runStep s (axios k)),
                     effects := effects c @ step_effects k (runStep s (axios k)),
                     rejection := Some (AbortingTest (sd_error (runStep s (axios k))))\<rparr>"
      using False Cons.prems
      by (simp add: chain_link_def abortTestIfNecessary_def Let_def step_effects_def)
    have r: "rejection ?c1 \<noteq> None" by (simp add: c1)
    show ?thesis
      using chain_rejected[OF r, of axios "enumerate (Suc k) ss"] False
      by (simp add: c1 storeStepData_def)
  qed
qed

lemma results_from_length: "length (results_from axios k ss) \<le> length ss"
  by (induction ss arbitrary: k) auto

lemma results_from_nonempty: "ss \<noteq> [] \<Longrightarrow> results_from axios k ss \<noteq> []"
  by (cases ss) auto

lemma results_from_all_ok:
  "list_all sd_succeeded (results_from axios k ss) \<Longrightarrow> length (results_from axios k ss) = length ss"
  by (induction ss arbitrary: k) (auto split: if_splits)

lemma results_from_butlast: "list_all sd_succeeded (butlast (results_from axios k ss))"
  by (induction ss arbitrary: k) auto

lemma results_from_last:
  "ss \<noteq> [] \<Longrightarrow>
   sd_succeeded (last (results_from axios k ss)) = list_all sd_succeeded (results_from axios k ss)"
proof (induction ss arbitrary: k)
  case Nil
  then show ?case by simp
next
  case (Cons s ss)
  show ?case
  proof (cases "ss = []")
    case True
    then show ?thesis by simp
  next
    case False
    then show ?thesis
      using Cons.IH[OF False, of "Suc k"] results_from_nonempty[OF False, of axios "Suc k"]
      by simp
  qed
qed

lemma results_from_nth:
  "i < length (results_from axios k ss) \<Longrightarrow>
   results_from axios k ss ! i = runStep (ss ! i) (axios (k + i))"
proof (induction ss arbitrary: k i)
  case Nil
  then show ?case by simp
next
  case (Cons s ss)
  then show ?case by (cases i) (auto split: if_splits)
qed

lemma results_from_full:
  "(length (results_from axios k ss) = length ss) =
   (\<forall>i. Suc i < length ss \<longrightarrow> sd_succeeded (runStep (ss ! i) (axios (k + i))))"
proof (induction ss arbitrary: k)
  case Nil
  then show ?case by simp
next
  case (Cons s ss)
  show ?case
  proof (cases "sd_succeeded (runStep s (axios k))")
    case True
    have "(\<forall>i. Suc i < length (s # ss) \<longrightarrow> sd_succeeded (runStep ((s # ss) ! i) (axios (k + i)))) =
          (\<forall>i. Suc i < length ss \<longrightarrow> sd_succeeded (runStep (ss ! i) (axios (Suc k + i))))"
      (is "?L = ?R")
    proof
      assume l: ?L
      show ?R
      proof (intro allI impI)
        fix i assume "Suc i < length ss"
        then show "sd_succeeded (runStep (ss ! i) (axios (Suc k + i)))"
          using l[rule_format, of "Suc i"] by simp
      qed
    next
      assume r: ?R
      show ?L
      proof (intro allI impI)
        fix i assume a: "Suc i < length (s # ss)"
        show "sd_succeeded (runStep ((s # ss) ! i) (axios (k + i)))"
        proof (cases i)
          case 0
          then show ?thesis using True by simp
        next
          case (Suc j)
          then show ?thesis using r[rule_format, of j] a by simp
        qed
      qed
    qed
    then show ?thesis using True Cons.IH[of "Suc k"] by simp
  next
    case False
    then show ?thesis by (cases ss) auto
  qed
qed

lemma run_chain_closed:
  "run_chain axios uid steps =
     \<lparr>c_testData = \<lparr>test_id = uid, stepsData = results_from axios 0 steps, succeeded = True,
                   error = None, repetition = None\<rparr>,
      rejection = (if list_all sd_succeeded (results_from axios 0 steps) then None
                   else Some (AbortingTest (sd_error (last (results_from axios 0 steps))))),
      effects = trace_from 0 (results_from axios 0 steps)\<rparr>"
  unfolding run_chain_def by (subst chain_closed) simp_all

lemma runTest_closed:
  "steps \<noteq> [] \<Longrightarrow>
   runTest axios uid steps =
     Inr \<lparr>test_id = uid, stepsData = results_from axios 0 steps,
          succeeded = list_all sd_succeeded (results_from axios 0 steps),
          error = (if list_all sd_succeeded (results_from axios 0 steps) then None
                   else Some (AbortingTest (sd_error (last (results_from axios 0 steps))))),
          repetition = None\<rparr>"
  by (cases steps) (simp_all add: runTest_def settle_def run_chain_closed)

lemma runTest_Inr_iff: "(\<exists>td. runTest axios uid steps = Inr td) = (steps \<noteq> [])"
  by (auto simp: runTest_def)

lemma upt_shift: "0 < n \<Longrightarrow> [0..<n] = 0 # map Suc [0..<n - 1]"
proof -
  assume "0 < n"
  then obtain m where m: "n = Suc m" by (cases n) auto
  have "[0..<Suc m] = 0 # [Suc 0..<Suc m]" by (rule upt_conv_Cons) simp
  also have "[Suc 0..<Suc m] = map Suc [0..<m]" by (rule map_Suc_upt[symmetric])
  finally show ?thesis by (simp add: m del: upt_Suc)
qed

lemma trace_from_concat:
  "trace_from k sds = concat (map (\<lambda>i. step_effects (k + i) (sds ! i)) [0..<length sds])"
proof (induction sds arbitrary: k)
  case Nil
  then show ?case by simp
next
  case (Cons sd sds)
  have sh: "[0..<length (sd # sds)] = 0 # map Suc [0..<length sds]"
    using upt_shift[of "length (sd # sds)"] by simp
  have "trace_from k (sd # sds) = step_effects k sd @ trace_from (Suc k) sds" by simp
  also have "trace_from (Suc k) sds =
             concat (map (\<lambda>i. step_effects (Suc k + i) (sds ! i)) [0..<length sds])"
    by (rule Cons.IH)
  also have "step_effects k sd @ concat (map (\<lambda>i. step_effects (Suc k + i) (sds ! i)) [0..<length sds]) =
             concat (map (\<lambda>i. step_effects (k + i) ((sd # sds) ! i)) (0 # map Suc [0..<length sds]))"
    by (simp add: comp_def)
  finally show ?case unfolding sh .
qed

lemma step_effects_index: "e \<in> set (step_effects i sd) \<Longrightarrow> effect_index e = i"
  by (auto simp: step_effects_def split: if_splits)

lemma trace_from_index:
  "e \<in> set (trace_from k sds) \<Longrightarrow> k \<le> effect_index e \<and> effect_index e < k + length sds"
proof (induction sds arbitrary: k)
  case Nil
  then show ?case by simp
next
  case (Cons sd sds)
  from Cons.prems have "e \<in> set (step_effects k sd) \<or> e \<in> set (trace_from (Suc k) sds)" by simp
  then show ?case
  proof
    assume "e \<in> set (step_effects k sd)"
    then show ?thesis using step_effects_index by fastforce
  next
    assume "e \<in> set (trace_from (Suc k) sds)"
    then show ?thesis using Cons.IH[of "Suc k"] by fastforce
  qed
qed

lemma distinct_step_effects: "distinct (step_effects i sd)"
  by (simp add: step_effects_def)

lemma distinct_trace_from: "distinct (trace_from k sds)"
proof (induction sds arbitrary: k)
  case Nil
  then show ?case by simp
next
  case (Cons sd sds)
  have "set (step_effects k sd) \<inter> set (trace_from (Suc k) sds) = {}"
  proof (rule ccontr)
    assume "set (step_effects k sd) \<inter> set (trace_from (Suc k) sds) \<noteq> {}"
    then obtain e where a: "e \<in> set (step_effects k sd)" and b: "e \<in> set (trace_from (Suc k) sds)"
      by blast
    from step_effects_index[OF a] trace_from_index[OF b] show False by simp
  qed
  then show ?case using Cons.IH[of "Suc k"] distinct_step_effects[of k sd] by simp
qed

lemma trace_from_sleep:
  "Begins (Sleep i d) \<in> set (trace_from k sds) \<Longrightarrow>
   k \<le> i \<and> i < k + length sds \<and> sd_succeeded (sds ! (i - k))
   \<and> d = sleepBeforeNextStepInMs (step (sds ! (i - k)))"
proof (induction sds arbitrary: k)
  case Nil
  then show ?case by simp
next
  case (Cons sd sds)
  from Cons.prems
  have "Begins (Sleep i d) \<in> set (step_effects k sd) \<or> Begins (Sleep i d) \<in> set (trace_from (Suc k) sds)"
    by simp
  then show ?case
  proof
    assume "Begins (Sleep i d) \<in> set (step_effects k sd)"
    then show ?thesis by (auto simp: step_effects_def split: if_splits)
  next
    assume "Begins (Sleep i d) \<in> set (trace_from (Suc k) sds)"
    from Cons.IH[OF this] have ih: "Suc k \<le> i" "i < Suc k + length sds"
      "sd_succeeded (sds ! (i - Suc k))" "d = sleepBeforeNextStepInMs (step (sds ! (i - Suc k)))"
      by simp_all
    from ih(1) have "i - k = Suc (i - Suc k)" by simp
    then have "(sd # sds) ! (i - k) = sds ! (i - Suc k)" by simp
    with ih show ?thesis by simp
  qed
qed

lemma trace_from_next:
  "Suc i < length sds \<Longrightarrow> sd_succeeded (sds ! i) \<Longrightarrow>
   \<exists>before after.
     trace_from k sds =
       before @ [Resolved (Sleep (k + i) (sleepBeforeNextStepInMs (step (sds ! i)))),
                 Begins (Request (k + Suc i))] @ after"
proof (induction sds arbitrary: k i)
  case Nil
  then show ?case by simp
next
  case (Cons sd sds)
  show ?case
  proof (cases i)
    case 0
    from Cons.prems 0 obtain sd' rest where r: "sds = sd' # rest" by (cases sds) auto
    have ok: "sd_succeeded sd" using Cons.prems 0 by simp
    let ?d = "sleepBeforeNextStepInMs (step sd)"
    have "trace_from k (sd # sds) =
          [Begins (Request k), Resolved (Request k), Begins (Sleep k ?d)]
          @ [Resolved (Sleep (k + 0) (sleepBeforeNextStepInMs (step ((sd # sds) ! 0)))),
             Begins (Request (k + Suc 0))]
          @ (tl (step_effects (Suc k) sd') @ trace_from (Suc (Suc k)) rest)"
      using ok by (simp add: r step_effects_def)
    then show ?thesis unfolding 0 by blast
  next
    case (Suc j)
    from Cons.prems Suc have "Suc j < length sds" "sd_succeeded (sds ! j)" by simp_all
    from Cons.IH[OF this, of "Suc k"] obtain before after where
      "trace_from (Suc k) sds =
         before @ [Resolved (Sleep (Suc k + j) (sleepBeforeNextStepInMs (step (sds ! j)))),
                   Begins (Request (Suc k + Suc j))] @ after" by blast
    then have "trace_from k (sd # sds) =
         (step_effects k sd @ before)
         @ [Resolved (Sleep (k + Suc j) (sleepBeforeNextStepInMs (step ((sd # sds) ! Suc j)))),
            Begins (Request (k + Suc (Suc j)))] @ after"
      by simp
    then show ?thesis unfolding Suc by blast
  qed
qed

lemmas example_defs =
  runTest_def settle_def run_chain_def chain_link_def storeStepData_def abortTestIfNecessary_def
  runStep_def openHttpRequest_def assertStatusCode_def applyUserAssertions_def
  defaultAssertionFunction_def example_step_def answering_def always_200_def always_500_def
  two_steps_def two_ok_steps_def one_step_def always_200_slow_def instant_200_def instant_500_def
  run_ok_def run_failed_create_def run_failed_500_def run_instant_ok_def run_instant_failed_def
  run_failed_proto_def run_failed_hasOwnProperty_def ten_then_thirty_def run_same_name_twice_def

text \<open>
  C2 (as amended). For every test data \<^verbatim>\<open>runTest\<close> resolves to, the length of
  \<^verbatim>\<open>stepsData\<close> is at most the number of registered steps; it is that number when the
  run succeeded; and it is that number exactly when no step before the last registered
  one failed, so also in a run whose last registered step failed.
\<close>

theorem runTest_stepsData_length:
  assumes "runTest axios uid steps = Inr td"
  shows "length (stepsData td) \<le> length steps
       \<and> (succeeded td \<longrightarrow> length (stepsData td) = length steps)
       \<and> (length (stepsData td) = length steps \<longleftrightarrow>
            (\<forall>i. Suc i < length steps \<longrightarrow> sd_succeeded (runStep (steps ! i) (axios i))))"
proof -
  from assms have ne: "steps \<noteq> []" by (auto simp: runTest_def split: if_splits)
  from assms runTest_closed[OF ne, of axios uid]
  have sd: "stepsData td = results_from axios 0 steps"
    and su: "succeeded td = list_all sd_succeeded (results_from axios 0 steps)" by auto
  show ?thesis
    using results_from_length[of axios 0 steps] results_from_all_ok[of axios 0 steps]
      results_from_full[of axios 0 steps]
    by (simp add: sd su)
qed

theorem runTest_stepsData_length_witness:
  "runTest always_200 ''vu'' two_ok_steps = Inr (settle (run_chain always_200 ''vu'' two_ok_steps))
   \<and> succeeded (settle (run_chain always_200 ''vu'' two_ok_steps))
   \<and> length (stepsData (settle (run_chain always_200 ''vu'' two_ok_steps))) \<le> length two_ok_steps
   \<and> length (stepsData (settle (run_chain always_200 ''vu'' two_ok_steps))) = length two_ok_steps"
proof -
  have h: "runTest always_200 ''vu'' two_ok_steps =
           Inr (settle (run_chain always_200 ''vu'' two_ok_steps))"
    by (simp add: runTest_def two_ok_steps_def)
  have ok: "succeeded (settle (run_chain always_200 ''vu'' two_ok_steps))"
    by (simp add: example_defs)
  show ?thesis using runTest_stepsData_length[OF h] h ok by blast
qed

text \<open>
  C2 as stated fails: a single step that expects 200 and is answered 500 gives a run whose
  \<^verbatim>\<open>stepsData\<close> has as many entries as there are registered steps, and the run failed.
\<close>

theorem runTest_full_length_failed_counterexample:
  "runTest always_500 ''vu'' one_step = Inr (settle (run_chain always_500 ''vu'' one_step))
   \<and> length (stepsData (settle (run_chain always_500 ''vu'' one_step))) = length one_step
   \<and> \<not> succeeded (settle (run_chain always_500 ''vu'' one_step))"
  by (simp add: example_defs)

text \<open>
  C3. Every test data \<^verbatim>\<open>runTest\<close> resolves to has at least one step result; the run is
  marked failed if and only if its last step result is failed, and every step result
  before the last one succeeded.
\<close>

theorem runTest_last_step_decides:
  assumes "runTest axios uid steps = Inr td"
  shows "stepsData td \<noteq> []
       \<and> (\<not> succeeded td \<longleftrightarrow> \<not> sd_succeeded (last (stepsData td)))
       \<and> (\<forall>sd \<in> set (butlast (stepsData td)). sd_succeeded sd)"
proof -
  from assms have ne: "steps \<noteq> []" by (auto simp: runTest_def split: if_splits)
  from assms runTest_closed[OF ne, of axios uid]
  have sd: "stepsData td = results_from axios 0 steps"
    and su: "succeeded td = list_all sd_succeeded (results_from axios 0 steps)" by auto
  show ?thesis
    using results_from_nonempty[OF ne, of axios 0] results_from_last[OF ne, of axios 0]
      results_from_butlast[of axios 0 steps]
    by (simp add: sd su list_all_iff)
qed


theorem runTest_last_step_decides_witness:
  "runTest always_200 ''vu'' two_steps = Inr (settle (run_chain always_200 ''vu'' two_steps))
   \<and> stepsData (settle (run_chain always_200 ''vu'' two_steps)) \<noteq> []
   \<and> \<not> succeeded (settle (run_chain always_200 ''vu'' two_steps))
   \<and> \<not> sd_succeeded (last (stepsData (settle (run_chain always_200 ''vu'' two_steps))))
   \<and> list_all sd_succeeded (butlast (stepsData (settle (run_chain always_200 ''vu'' two_steps))))"
proof -
  have h: "runTest always_200 ''vu'' two_steps = Inr (settle (run_chain always_200 ''vu'' two_steps))"
    by (simp add: runTest_def two_steps_def)
  have f: "\<not> succeeded (settle (run_chain always_200 ''vu'' two_steps))"
    by (simp add: example_defs)
  show ?thesis using runTest_last_step_decides[OF h] h f unfolding list_all_iff by blast
qed

text \<open>
  C8. The effects of a virtual user are those of the steps it ran, step after step: for
  each one the request, and after it the sleep of the step's delay exactly when the step
  data succeeded. No effect occurs twice. The request of step \<open>i + 1\<close> begins directly
  after the sleep that follows step \<open>i\<close> has resolved. A sleep begins only after a step
  whose step data succeeded: the delay of a failed step is never executed.
\<close>

theorem runTest_effects_sequential:
  assumes "runTest axios uid steps = Inr td"
  shows "runTest_effects axios uid steps =
           concat (map (\<lambda>i. step_effects i (stepsData td ! i)) [0..<length (stepsData td)])
       \<and> distinct (runTest_effects axios uid steps)
       \<and> (\<forall>i. Suc i < length (stepsData td) \<longrightarrow>
             (\<exists>before after.
                runTest_effects axios uid steps =
                  before @ [Resolved (Sleep i (sleepBeforeNextStepInMs (steps ! i))),
                            Begins (Request (Suc i))] @ after))
       \<and> (\<forall>i d. Begins (Sleep i d) \<in> set (runTest_effects axios uid steps) \<longrightarrow>
             i < length (stepsData td) \<and> sd_succeeded (stepsData td ! i)
             \<and> d = sleepBeforeNextStepInMs (steps ! i))
       \<and> (\<forall>i d. i < length (stepsData td) \<and> \<not> sd_succeeded (stepsData td ! i) \<longrightarrow>
             Begins (Sleep i d) \<notin> set (runTest_effects axios uid steps))"
proof -
  from assms have ne: "steps \<noteq> []" by (auto simp: runTest_def split: if_splits)
  let ?R = "results_from axios 0 steps"
  from assms runTest_closed[OF ne, of axios uid]
  have sd: "stepsData td = ?R" by auto
  have eff: "runTest_effects axios uid steps = trace_from 0 ?R"
    by (simp add: runTest_effects_def run_chain_closed)
  have st: "step (?R ! i) = steps ! i" if "i < length ?R" for i
    using results_from_nth[OF that] by (simp add: runStep_step)
  have c1: "runTest_effects axios uid steps =
            concat (map (\<lambda>i. step_effects i (stepsData td ! i)) [0..<length (stepsData td)])"
    unfolding eff sd using trace_from_concat[of 0 ?R] by simp
  have c2: "distinct (runTest_effects axios uid steps)"
    unfolding eff by (rule distinct_trace_from)
  have c3: "\<exists>before after.
                runTest_effects axios uid steps =
                  before @ [Resolved (Sleep i (sleepBeforeNextStepInMs (steps ! i))),
                            Begins (Request (Suc i))] @ after"
    if i: "Suc i < length (stepsData td)" for i
  proof -
    from i have il: "Suc i < length ?R" by (simp add: sd)
    then have "?R ! i \<in> set (butlast ?R)"
      by (metis Suc_lessD length_butlast less_diff_conv nth_butlast nth_mem Suc_eq_plus1)
    then have ok: "sd_succeeded (?R ! i)"
      using results_from_butlast[of axios 0 steps] by (simp add: list_all_iff)
    from trace_from_next[OF il ok, of 0] st[of i] il show ?thesis
      unfolding eff by simp
  qed
  have c4: "i < length (stepsData td) \<and> sd_succeeded (stepsData td ! i)
            \<and> d = sleepBeforeNextStepInMs (steps ! i)"
    if "Begins (Sleep i d) \<in> set (runTest_effects axios uid steps)" for i d
    using trace_from_sleep[of i d 0 ?R] that st[of i] unfolding eff sd by simp
  from c4 have c5: "Begins (Sleep i d) \<notin> set (runTest_effects axios uid steps)"
    if "i < length (stepsData td) \<and> \<not> sd_succeeded (stepsData td ! i)" for i d
    using that by blast
  from c1 c2 c3 c4 c5 show ?thesis by blast
qed

text \<open>
  With two steps of which the second expects 201 and is answered 200, the run sleeps
  after the first step and not after the second.
\<close>

theorem runTest_effects_sequential_witness:
  "runTest always_200 ''vu'' two_steps = Inr (settle (run_chain always_200 ''vu'' two_steps))
   \<and> map sd_succeeded (stepsData (settle (run_chain always_200 ''vu'' two_steps))) = [True, False]
   \<and> runTest_effects always_200 ''vu'' two_steps =
       [Begins (Request 0), Resolved (Request 0), Begins (Sleep 0 1000), Resolved (Sleep 0 1000),
        Begins (Request 1), Resolved (Request 1)]
   \<and> Begins (Sleep 1 500) \<notin> set (runTest_effects always_200 ''vu'' two_steps)"
proof -
  let ?td = "settle (run_chain always_200 ''vu'' two_steps)"
  have h: "runTest always_200 ''vu'' two_steps = Inr ?td"
    by (simp add: runTest_def two_steps_def)
  have l: "length (stepsData ?td) = 2" by (simp add: example_defs)
  have f: "map sd_succeeded (stepsData ?td) = [True, False]" by (simp add: example_defs)
  have f1: "\<not> sd_succeeded (stepsData ?td ! 1)"
    using f l by (metis nth_map nth_Cons_0 nth_Cons_Suc One_nat_def one_less_numeral_iff semiring_norm(76))
  note t = runTest_effects_sequential[OF h]
  from t have "runTest_effects always_200 ''vu'' two_steps =
          concat (map (\<lambda>i. step_effects i (stepsData ?td ! i)) [0..<length (stepsData ?td)])"
    by blast
  then have e: "runTest_effects always_200 ''vu'' two_steps =
       [Begins (Request 0), Resolved (Request 0), Begins (Sleep 0 1000), Resolved (Sleep 0 1000),
        Begins (Request 1), Resolved (Request 1)]"
    by (simp add: example_defs step_effects_def)
  from t l f1 have n: "Begins (Sleep 1 500) \<notin> set (runTest_effects always_200 ''vu'' two_steps)"
    by (metis one_less_numeral_iff semiring_norm(76))
  from h f e n show ?thesis by blast
qed

section \<open>Transport rejections\<close>

lemma results_from_first_failure:
  "k < length ss \<Longrightarrow> (\<forall>i<k. sd_succeeded (runStep (ss ! i) (axios (j + i)))) \<Longrightarrow>
   \<not> sd_succeeded (runStep (ss ! k) (axios (j + k))) \<Longrightarrow>
   length (results_from axios j ss) = Suc k \<and>
   last (results_from axios j ss) = runStep (ss ! k) (axios (j + k))"
proof (induction ss arbitrary: j k)
  case Nil
  then show ?case by simp
next
  case (Cons s ss)
  show ?case
  proof (cases k)
    case 0
    then show ?thesis using Cons.prems by simp
  next
    case (Suc k')
    have ok: "sd_succeeded (runStep s (axios j))"
      using Cons.prems(2)[rule_format, of 0] Suc by simp
    have p1: "k' < length ss" using Cons.prems(1) Suc by simp
    have p2: "\<forall>i<k'. sd_succeeded (runStep (ss ! i) (axios (Suc j + i)))"
    proof (intro allI impI)
      fix i assume "i < k'"
      then show "sd_succeeded (runStep (ss ! i) (axios (Suc j + i)))"
        using Cons.prems(2)[rule_format, of "Suc i"] Suc by simp
    qed
    have p3: "\<not> sd_succeeded (runStep (ss ! k') (axios (Suc j + k')))"
      using Cons.prems(3) Suc by simp
    have "ss \<noteq> []" using p1 by auto
    then have ne: "results_from axios (Suc j) ss \<noteq> []"
      by (rule results_from_nonempty)
    show ?thesis
      using Cons.IH[OF p1 p2 p3] ok ne Suc by simp
  qed
qed

lemma runStep_without_response:
  "outcome ex = Rejected None \<Longrightarrow>
   \<not> sd_succeeded (runStep s ex) \<and> responseStatusCode (runStep s ex) = None
   \<and> sd_error (runStep s ex) = Some StatusCodeCheck"
  by (simp add: runStep_def openHttpRequest_def assertStatusCode_def)

lemma runStep_as_fulfilled: "runStep s (as_fulfilled ex) = runStep s ex"
proof (cases "outcome ex")
  case (Fulfilled r)
  then show ?thesis by (simp add: as_fulfilled_def)
next
  case (Rejected ro)
  then show ?thesis
    by (cases ro) (simp_all add: as_fulfilled_def runStep_def openHttpRequest_def)
qed

lemma run_chain_as_fulfilled:
  "run_chain (\<lambda>i. as_fulfilled (axios i)) uid steps = run_chain axios uid steps"
proof -
  have "chain_link (\<lambda>i. as_fulfilled (axios i)) = chain_link axios"
    by (intro ext) (simp add: chain_link_def Let_def runStep_as_fulfilled split: option.splits)
  then show ?thesis by (simp add: run_chain_def)
qed

text \<open>
  C4 (as amended). When the request of a step that is reached is rejected by the transport
  with an error that carries no response, the step data is failed with a null status code
  and the error of the status-code check; \<^verbatim>\<open>runTest\<close> still resolves, to a test data that
  ends with this step data and is marked failed, as after any failed step. A rejection
  whose error carries a response is checked like the fulfilment with that response: the
  step data are the same, and so are the test data and the effects of the whole run.
\<close>

theorem rejection_without_response_fails_step:
  "(k < length steps
      \<and> (\<forall>i<k. sd_succeeded (runStep (steps ! i) (axios i)))
      \<and> outcome (axios k) = Rejected None
    \<longrightarrow> (\<exists>td. runTest axios uid steps = Inr td
           \<and> length (stepsData td) = Suc k
           \<and> last (stepsData td) = runStep (steps ! k) (axios k)
           \<and> \<not> sd_succeeded (last (stepsData td))
           \<and> responseStatusCode (last (stepsData td)) = None
           \<and> sd_error (last (stepsData td)) = Some StatusCodeCheck
           \<and> \<not> succeeded td
           \<and> error td = Some (AbortingTest (Some StatusCodeCheck))))
   \<and> (\<forall>r t. runStep s \<lparr>outcome = Rejected (Some r), elapsed = t\<rparr> =
              runStep s \<lparr>outcome = Fulfilled r, elapsed = t\<rparr>)
   \<and> runTest (\<lambda>i. as_fulfilled (axios i)) uid steps = runTest axios uid steps
   \<and> runTest_effects (\<lambda>i. as_fulfilled (axios i)) uid steps = runTest_effects axios uid steps"
proof -
  have a: "\<exists>td. runTest axios uid steps = Inr td
           \<and> length (stepsData td) = Suc k
           \<and> last (stepsData td) = runStep (steps ! k) (axios k)
           \<and> \<not> sd_succeeded (last (stepsData td))
           \<and> responseStatusCode (last (stepsData td)) = None
           \<and> sd_error (last (stepsData td)) = Some StatusCodeCheck
           \<and> \<not> succeeded td
           \<and> error td = Some (AbortingTest (Some StatusCodeCheck))"
    if k: "k < length steps" and ok: "\<forall>i<k. sd_succeeded (runStep (steps ! i) (axios i))"
      and rej: "outcome (axios k) = Rejected None"
  proof -
    from k have ne: "steps \<noteq> []" by auto
    note r = runStep_without_response[OF rej, of "steps ! k"]
    have ff: "length (results_from axios 0 steps) = Suc k \<and>
              last (results_from axios 0 steps) = runStep (steps ! k) (axios (0 + k))"
      using ok r by (intro results_from_first_failure[OF k]) simp_all
    have nall: "\<not> list_all sd_succeeded (results_from axios 0 steps)"
      using results_from_last[OF ne, of axios 0] ff r by simp
    show ?thesis
      using ff r nall by (simp add: runTest_closed[OF ne])
  qed
  have b: "runStep s \<lparr>outcome = Rejected (Some r), elapsed = t\<rparr> =
           runStep s \<lparr>outcome = Fulfilled r, elapsed = t\<rparr>" for r t
    by (simp add: runStep_def openHttpRequest_def)
  have c: "runTest (\<lambda>i. as_fulfilled (axios i)) uid steps = runTest axios uid steps"
    by (simp add: runTest_def run_chain_as_fulfilled)
  have d: "runTest_effects (\<lambda>i. as_fulfilled (axios i)) uid steps = runTest_effects axios uid steps"
    by (simp add: runTest_effects_def run_chain_as_fulfilled)
  from a b c d show ?thesis by blast
qed

theorem rejection_without_response_fails_step_witness:
  "1 < length two_steps
   \<and> sd_succeeded (runStep (two_steps ! 0) (refused_at_second 0))
   \<and> outcome (refused_at_second 1) = Rejected None
   \<and> (\<exists>td. runTest refused_at_second ''vu'' two_steps = Inr td
          \<and> length (stepsData td) = 2
          \<and> \<not> sd_succeeded (last (stepsData td))
          \<and> responseStatusCode (last (stepsData td)) = None
          \<and> \<not> succeeded td)
   \<and> runStep (example_step ''missing page'' 404 0) rejected_with_404 =
       runStep (example_step ''missing page'' 404 0)
         \<lparr>outcome = Fulfilled \<lparr>status = 404, data = Some ''Not Found''\<rparr>, elapsed = 12\<rparr>"
proof -
  have h1: "1 < length two_steps" by (simp add: two_steps_def)
  have h0: "sd_succeeded (runStep (two_steps ! 0) (refused_at_second 0))"
    by (simp add: example_defs refused_at_second_def)
  then have h2: "\<forall>i<1. sd_succeeded (runStep (two_steps ! i) (refused_at_second i))" by simp
  have h3: "outcome (refused_at_second 1) = Rejected None" by (simp add: refused_at_second_def)
  note t = rejection_without_response_fails_step
    [of 1 two_steps refused_at_second "''vu''" "example_step ''missing page'' 404 0"]
  from t h1 h2 h3 have
    "\<exists>td. runTest refused_at_second ''vu'' two_steps = Inr td
          \<and> length (stepsData td) = 2
          \<and> \<not> sd_succeeded (last (stepsData td))
          \<and> responseStatusCode (last (stepsData td)) = None
          \<and> \<not> succeeded td"
    by auto
  moreover from t have
    "runStep (example_step ''missing page'' 404 0) rejected_with_404 =
       runStep (example_step ''missing page'' 404 0)
         \<lparr>outcome = Fulfilled \<lparr>status = 404, data = Some ''Not Found''\<rparr>, elapsed = 12\<rparr>"
    unfolding rejected_with_404_def by blast
  ultimately show ?thesis using h1 h0 h3 by blast
qed

text \<open>
  C4 as stated fails for a rejection that carries a response: a step that expects 404 and
  whose request axios rejects with the 404 response succeeds, with status code 404.
\<close>

theorem rejection_with_response_counterexample:
  "outcome rejected_with_404 = Rejected (Some \<lparr>status = 404, data = Some ''Not Found''\<rparr>)
   \<and> sd_succeeded (runStep (example_step ''missing page'' 404 0) rejected_with_404)
   \<and> responseStatusCode (runStep (example_step ''missing page'' 404 0) rejected_with_404) = Some 404"
  by (simp add: example_defs rejected_with_404_def)

section \<open>The protocol of a registered URL\<close>

text \<open>
  \<^verbatim>\<open>normalizeUrl\<close> leaves a URL as it is exactly when \<^verbatim>\<open>http\<close> occurs somewhere in it.
\<close>

lemma indexOf_from_found:
  "(indexOf_from s pat i \<noteq> - 1) = (\<exists>pre suf. s = pre @ pat @ suf)"
proof (induction s arbitrary: i)
  case Nil
  then show ?case by auto
next
  case (Cons c cs)
  show ?case
  proof (cases "take (length pat) (c # cs) = pat")
    case True
    then have "c # cs = [] @ pat @ drop (length pat) (c # cs)"
      by (metis append_Nil append_take_drop_id)
    then have "\<exists>pre suf. c # cs = pre @ pat @ suf" by blast
    with True show ?thesis by simp
  next
    case False
    have "(\<exists>pre suf. c # cs = pre @ pat @ suf) = (\<exists>pre suf. cs = pre @ pat @ suf)"
    proof
      assume "\<exists>pre suf. c # cs = pre @ pat @ suf"
      then obtain pre suf where e: "c # cs = pre @ pat @ suf" by blast
      show "\<exists>pre suf. cs = pre @ pat @ suf"
      proof (cases pre)
        case Nil
        with e have "take (length pat) (c # cs) = pat" by simp
        with False show ?thesis by simp
      next
        case (Cons p pre')
        with e have "cs = pre' @ pat @ suf" by simp
        then show ?thesis by blast
      qed
    next
      assume "\<exists>pre suf. cs = pre @ pat @ suf"
      then obtain pre suf where "cs = pre @ pat @ suf" by blast
      then have "c # cs = (c # pre) @ pat @ suf" by simp
      then show "\<exists>pre suf. c # cs = pre @ pat @ suf" by blast
    qed
    with False Cons.IH[of "Suc i"] show ?thesis by simp
  qed
qed

lemma normalizeUrl_substring:
  "normalizeUrl u protocol =
     (if \<exists>pre suf. u = pre @ ''http'' @ suf then u else protocol @ ''://'' @ u)"
  unfolding normalizeUrl_def indexOf_def Let_def indexOf_from_found ..

text \<open>
  C9. The specification has the protocol prepended to every URL without a scheme prefix.
  \<^verbatim>\<open>normalizeUrl\<close> looks for \<^verbatim>\<open>http\<close> anywhere in the URL: a host whose name begins
  with \<^verbatim>\<open>http\<close>, or a route that contains it, is stored without protocol.
\<close>

theorem normalizeUrl_http_inside_route:
  "normalizeUrl ''httpbin.org/get'' ''https'' = ''httpbin.org/get''
   \<and> normalizeUrl ''localhost:3000/http-status'' ''http'' = ''localhost:3000/http-status''
   \<and> map_sum id (map url)
        (addStep ((example_step ''status page'' 200 0)\<lparr>url := ''localhost:3000/http-status''\<rparr>) [])
       = Inr [''localhost:3000/http-status'']"
  by (simp add: normalizeUrl_def indexOf_def addStep_def example_step_def allowedMethods_def)

section \<open>The waves of a load test\<close>

lemma Promise_all_resolved: "Promise_all (map (\<lambda>i. Inr (f i)) xs) = Inr (map f xs)"
  by (induction xs) simp_all

lemma testThreads_resolved:
  "steps \<noteq> [] \<Longrightarrow>
   Promise_all (testThreads env steps params r) =
     Inr (map (virtual_user env steps r) [0..<nat (numOfThreads params)])"
proof -
  assume ne: "steps \<noteq> []"
  have "testThreads env steps params r =
        map (\<lambda>i. Inr (virtual_user env steps r i)) [0..<nat (numOfThreads params)]"
    using ne by (cases steps) (simp_all add: testThreads_def runTest_def virtual_user_def)
  then show ?thesis by (simp only: Promise_all_resolved)
qed

lemma wave_stamped:
  "addFieldRepetition (map (virtual_user env steps r) [0..<nat (numOfThreads params)]) r =
   wave_runs env steps params r"
  by (simp add: addFieldRepetition_def wave_runs_def comp_def)

lemma runLoadTest_loop:
  "steps \<noteq> [] \<Longrightarrow> 1 \<le> numOfThreads params \<Longrightarrow> 1 \<le> numOfRepetitions params \<Longrightarrow>
   0 \<le> maxTimeBeforeStartingInMs params \<Longrightarrow>
   runLoadTest env steps params cur acc =
     Inr (acc @ concat (map (wave_runs env steps params) [cur..numOfRepetitions params]))"
proof (induction env steps params cur acc rule: runLoadTest.induct)
  case (1 env steps params cur acc)
  show ?case
  proof (cases "cur > numOfRepetitions params")
    case True
    then show ?thesis using "1.prems" by (subst runLoadTest.simps) simp
  next
    case False
    have "runLoadTest env steps params (cur + 1)
                (acc @ addFieldRepetition (map (virtual_user env steps cur) [0..<nat (numOfThreads params)]) cur) =
              Inr ((acc @ addFieldRepetition (map (virtual_user env steps cur) [0..<nat (numOfThreads params)]) cur)
                   @ concat (map (wave_runs env steps params) [cur + 1..numOfRepetitions params]))"
      using "1.prems" False testThreads_resolved[OF "1.prems"(1), of env params cur]
      by (intro "1.IH") simp_all
    then have ih: "runLoadTest env steps params (cur + 1) (acc @ wave_runs env steps params cur) =
              Inr (acc @ wave_runs env steps params cur
                   @ concat (map (wave_runs env steps params) [cur + 1..numOfRepetitions params]))"
      by (simp add: wave_stamped)
    have up: "[cur..numOfRepetitions params] = cur # [cur + 1..numOfRepetitions params]"
      using False by (simp add: upto_rec1)
    have "runLoadTest env steps params cur acc =
          runLoadTest env steps params (cur + 1) (acc @ wave_runs env steps params cur)"
      apply (subst runLoadTest.simps)
      using "1.prems" False
      by (simp add: testThreads_resolved wave_stamped)
    then show ?thesis by (simp add: ih up)
  qed
qed

lemma length_wave_runs: "length (wave_runs env steps params r) = nat (numOfThreads params)"
  by (simp add: wave_runs_def)

lemma length_concat_waves:
  "length (concat (map (wave_runs env steps params) rs)) = length rs * nat (numOfThreads params)"
  by (induction rs) (simp_all add: length_wave_runs)

text \<open>
  C1. With at least one registered step and valid parameters, \<^verbatim>\<open>runLoadTest\<close> resolves to
  \<^verbatim>\<open>numOfThreads * numOfRepetitions\<close> test data: the runs of the waves 1 to
  \<^verbatim>\<open>numOfRepetitions\<close> one after the other, each wave with \<^verbatim>\<open>numOfThreads\<close> runs.
\<close>

theorem runLoadTest_yields_all_runs:
  assumes "steps \<noteq> []" and "1 \<le> numOfThreads params" and "1 \<le> numOfRepetitions params"
    and "0 \<le> maxTimeBeforeStartingInMs params"
  shows "\<exists>runs. runLoadTest env steps params 1 [] = Inr runs
           \<and> length runs = nat (numOfThreads params * numOfRepetitions params)
           \<and> runs = concat (map (wave_runs env steps params) [1..numOfRepetitions params])
           \<and> (\<forall>r. length (wave_runs env steps params r) = nat (numOfThreads params))"
proof -
  have run: "runLoadTest env steps params 1 [] =
             Inr (concat (map (wave_runs env steps params) [1..numOfRepetitions params]))"
    using runLoadTest_loop[OF assms, of env 1 "[]"] by simp
  have len: "length (concat (map (wave_runs env steps params) [1..numOfRepetitions params])) =
             nat (numOfThreads params * numOfRepetitions params)"
    using assms(2,3) by (simp add: length_concat_waves nat_mult_distrib mult.commute)
  show ?thesis using run len length_wave_runs by blast
qed

theorem runLoadTest_yields_all_runs_witness:
  "one_step \<noteq> [] \<and> 1 \<le> numOfThreads three_by_two \<and> 1 \<le> numOfRepetitions three_by_two
   \<and> 0 \<le> maxTimeBeforeStartingInMs three_by_two
   \<and> (\<exists>runs. runLoadTest scenario_env one_step three_by_two 1 [] = Inr runs \<and> length runs = 6)"
proof -
  have h1: "one_step \<noteq> []" by (simp add: one_step_def)
  have h2: "1 \<le> numOfThreads three_by_two" by (simp add: three_by_two_def)
  have h3: "1 \<le> numOfRepetitions three_by_two" by (simp add: three_by_two_def)
  have h4: "0 \<le> maxTimeBeforeStartingInMs three_by_two" by (simp add: three_by_two_def)
  have n: "nat (numOfThreads three_by_two * numOfRepetitions three_by_two) = 6"
    by (simp add: three_by_two_def)
  show ?thesis
    using runLoadTest_yields_all_runs[OF h1 h2 h3 h4, of scenario_env] h1 h2 h3 h4
    unfolding n by blast
qed

text \<open>
  Conversely, a load test that resolves had valid parameters and at least one step, and
  each of its runs has step data.
\<close>

lemma runLoadTest_invalid:
  "numOfThreads params < 1 \<or> numOfRepetitions params < 1 \<or> maxTimeBeforeStartingInMs params < 0 \<Longrightarrow>
   \<exists>e. runLoadTest env steps params cur acc = Inl e"
  by (subst runLoadTest.simps) auto

lemma testThreads_no_steps:
  "1 \<le> numOfThreads params \<Longrightarrow> \<exists>e. Promise_all (testThreads env [] params r) = Inl e"
proof -
  assume "1 \<le> numOfThreads params"
  then obtain n where n: "nat (numOfThreads params) = Suc n"
    by (cases "nat (numOfThreads params)") auto
  have "[0..<Suc n] = 0 # [Suc 0..<Suc n]" by (rule upt_conv_Cons) simp
  then show ?thesis
    by (simp add: testThreads_def n runTest_def del: upt_Suc)
qed

lemma runLoadTest_no_steps:
  assumes "1 \<le> numOfThreads params" and "1 \<le> numOfRepetitions params"
    and "0 \<le> maxTimeBeforeStartingInMs params" and "cur \<le> numOfRepetitions params"
  shows "\<exists>e. runLoadTest env [] params cur acc = Inl e"
proof -
  obtain e where e: "Promise_all (testThreads env [] params cur) = Inl e"
    using testThreads_no_steps[OF assms(1)] by blast
  show ?thesis
    apply (subst runLoadTest.simps)
    using assms by (simp add: e)
qed

lemma runLoadTest_resolved:
  assumes "runLoadTest env steps params 1 [] = Inr results"
  shows "steps \<noteq> [] \<and> 1 \<le> numOfThreads params \<and> 1 \<le> numOfRepetitions params
       \<and> 0 \<le> maxTimeBeforeStartingInMs params"
proof -
  have v: "\<not> (numOfThreads params < 1 \<or> numOfRepetitions params < 1
              \<or> maxTimeBeforeStartingInMs params < 0)"
    using runLoadTest_invalid[of params env steps 1 "[]"] assms by auto
  have "steps \<noteq> []"
  proof
    assume "steps = []"
    then show False
      using runLoadTest_no_steps[of params 1 env "[]"] v assms by auto
  qed
  with v show ?thesis by simp
qed

lemma virtual_user_stepsData: "steps \<noteq> [] \<Longrightarrow> stepsData (virtual_user env steps r i) \<noteq> []"
  by (simp add: virtual_user_def settle_def run_chain_closed results_from_nonempty split: option.splits)

lemma runLoadTest_runs_have_steps:
  assumes "runLoadTest env steps params 1 [] = Inr results"
  shows "results \<noteq> [] \<and> (\<forall>td\<in>set results. stepsData td \<noteq> [])"
proof -
  note v = runLoadTest_resolved[OF assms]
  have r: "results = concat (map (wave_runs env steps params) [1..numOfRepetitions params])"
    using runLoadTest_loop[of steps params env 1 "[]"] v assms by simp
  have "length results = nat (numOfRepetitions params) * nat (numOfThreads params)"
    unfolding r by (simp add: length_concat_waves)
  then have "results \<noteq> []" using v by auto
  moreover have "\<forall>td\<in>set results. stepsData td \<noteq> []"
    unfolding r using v by (auto simp: wave_runs_def virtual_user_stepsData)
  ultimately show ?thesis by simp
qed

section \<open>The averages of the report\<close>

lemma computeAvg_empty: "computeAvg [] = NaN"
  by (simp add: computeAvg_def)

lemma printReport_averages:
  "printReport results = Inr rep \<Longrightarrow>
   avg_successes rep = or_NA (computeAvgResponseTimeForTests (filter (\<lambda>r. succeeded r) results)) \<and>
   avg_failures rep = or_NA (computeAvgResponseTimeForTests (filter (\<lambda>r. \<not> succeeded r) results))"
  by (auto simp: printReport_def Let_def split: sum.splits)

lemma foldl_js_add_zero: "\<forall>x\<in>set xs. x = Num 0 \<Longrightarrow> foldl (\<lambda>acc v. js_add acc v) (Num 0) xs = Num 0"
  by (induction xs) simp_all

lemma computeAvg_zero: "xs \<noteq> [] \<Longrightarrow> \<forall>x\<in>set xs. x = Num 0 \<Longrightarrow> computeAvg xs = Num 0"
  by (simp add: computeAvg_def foldl_js_add_zero)

lemma computeAvgResponseTimeForTests_zero:
  assumes "tds \<noteq> []"
    and "\<forall>td\<in>set tds. stepsData td \<noteq> [] \<and> (\<forall>sd\<in>set (stepsData td). responseTime sd = 0)"
  shows "computeAvgResponseTimeForTests tds = Num 0"
proof -
  have "\<forall>td\<in>set tds. computeAvgResponseTimeForTest td = Num 0"
    using assms(2) by (auto simp: computeAvgResponseTimeForTest_def intro!: computeAvg_zero)
  then show ?thesis
    using assms(1) by (auto simp: computeAvgResponseTimeForTests_def intro!: computeAvg_zero)
qed

section \<open>The failure distributions\<close>

lemma getStepDataWithError_last:
  "getStepDataWithError td = (if stepsData td = [] then None else Some (last (stepsData td)))"
proof (cases "stepsData td = []")
  case True
  then show ?thesis by (simp add: getStepDataWithError_def)
next
  case False
  then have "nat (int (length (stepsData td)) - 1) = length (stepsData td) - 1" by simp
  with False show ?thesis
    by (simp add: getStepDataWithError_def Let_def last_conv_nth) 
qed

text \<open>On ordinary names the two operations on objects are those of a dictionary.\<close>

lemma set_property_plain: "k \<noteq> ''__proto__'' \<Longrightarrow> set_property k v obj = AList.update k v obj"
  by (simp add: set_property_def)

lemma hasOwnProperty_plain:
  "map_of obj ''hasOwnProperty'' = None \<Longrightarrow> hasOwnProperty obj k = Inr (map_of obj k \<noteq> None)"
  by (simp add: hasOwnProperty_def)

lemma set_Object_keys: "set (Object_keys obj) = fst ` set obj"
  by (auto simp: Object_keys_def Let_def)

lemma distinct_Object_keys: "distinct (map fst obj) \<Longrightarrow> distinct (Object_keys obj)"
  by (auto simp: Object_keys_def Let_def)

lemma sum_update_new:
  "map_of acc k = None \<Longrightarrow>
   sum_list (map snd (AList.update k (v::nat) acc)) = sum_list (map snd acc) + v"
  by (induction acc) (auto split: if_splits)

lemma sum_update_Suc:
  "map_of acc k = Some n \<Longrightarrow> sum_list (map snd (AList.update k (Suc n) acc)) = Suc (sum_list (map snd acc))"
  by (induction acc) (auto split: if_splits)

lemma sum_tally_key: "sum_list (map snd (tally_key acc k)) = Suc (sum_list (map snd acc))"
  by (cases "map_of acc k") (simp_all add: tally_key_def sum_update_new sum_update_Suc)

lemma distinct_tally_key: "distinct (map fst acc) \<Longrightarrow> distinct (map fst (tally_key acc k))"
  by (cases "map_of acc k") (simp_all add: tally_key_def distinct_update)

lemma keys_tally_key: "set (map fst (tally_key acc k)) = insert k (set (map fst acc))"
  by (cases "map_of acc k") (auto simp: tally_key_def update_keys)

lemma map_of_tally_key:
  "map_of (tally_key acc k) k' =
     (if k' = k then Some (case map_of acc k of None \<Rightarrow> 1 | Some n \<Rightarrow> Suc n) else map_of acc k')"
  by (cases "map_of acc k") (simp_all add: tally_key_def update_conv')

lemma sum_foldl_tally_key:
  "sum_list (map snd (foldl tally_key acc ks)) = sum_list (map snd acc) + length ks"
  by (induction ks arbitrary: acc) (simp_all add: sum_tally_key)

lemma distinct_foldl_tally_key:
  "distinct (map fst acc) \<Longrightarrow> distinct (map fst (foldl tally_key acc ks))"
  by (induction ks arbitrary: acc) (simp_all add: distinct_tally_key)

lemma keys_foldl_tally_key:
  "set (map fst (foldl tally_key acc ks)) = set (map fst acc) \<union> set ks"
  by (induction ks arbitrary: acc) (simp_all add: keys_tally_key del: set_map)

lemma map_of_foldl_tally_key:
  "map_of (foldl tally_key acc ks) k =
     (case map_of acc k of
        None \<Rightarrow> if k \<in> set ks then Some (count_list ks k) else None
      | Some n \<Rightarrow> Some (n + count_list ks k))"
proof (induction ks arbitrary: acc)
  case Nil
  then show ?case by (simp split: option.splits)
next
  case (Cons a ks)
  show ?case
    by (cases "map_of acc a"; cases "map_of acc k")
       (auto simp: Cons.IH map_of_tally_key)
qed

lemma map_of_tally:
  "map_of (foldl tally_key [] ks) k = (if k \<in> set ks then Some (count_list ks k) else None)"
  by (simp add: map_of_foldl_tally_key)

lemma sort_keys_tally: "sort (Object_keys (foldl tally_key [] ks)) = sorted_list_of_set (set ks)"
proof -
  have "distinct (map fst (foldl tally_key [] ks))"
    by (rule distinct_foldl_tally_key) simp
  then have d: "distinct (Object_keys (foldl tally_key [] ks))"
    by (rule distinct_Object_keys)
  have "sorted_list_of_set (set ks) = sorted_list_of_set (set (Object_keys (foldl tally_key [] ks)))"
    using keys_foldl_tally_key[of "[]" ks] by (simp add: set_Object_keys)
  also have "\<dots> = sort (remdups (Object_keys (foldl tally_key [] ks)))"
    by (rule sorted_list_of_set_sort_remdups)
  also have "\<dots> = sort (Object_keys (foldl tally_key [] ks))"
    using d by (simp only: distinct_remdups_id)
  finally show ?thesis by simp
qed

lemma foldl_append_lines: "foldl (\<lambda>msg k. msg @ f k) init ks = init @ concat (map f ks)"
  by (induction ks arbitrary: init) simp_all

lemma distribution_msg_tally:
  "distribution_msg (foldl tally_key [] ks) = expected_distribution ks"
proof -
  let ?counts = "foldl tally_key [] ks"
  let ?line = "\<lambda>k. k @ '': '' @ count_text ?counts k @ ''\<newline>      ''"
  have lines: "map ?line (sorted_list_of_set (set ks)) = map (tally_line ks) (sorted_list_of_set (set ks))"
    by (rule map_cong) (simp_all add: count_text_def map_of_tally tally_line_def)
  have msg: "foldl (\<lambda>msg k. msg @ ?line k) [] (sort (Object_keys ?counts)) =
             concat (map (tally_line ks) (sorted_list_of_set (set ks)))"
    by (simp only: foldl_append_lines sort_keys_tally lines append_Nil)
  have empty: "(concat (map (tally_line ks) (sorted_list_of_set (set ks))) = []) = (ks = [])"
  proof (cases ks)
    case Nil
    then show ?thesis by simp
  next
    case (Cons a as)
    have "set (sorted_list_of_set (set ks)) = set ks" by simp
    with Cons have "a \<in> set (sorted_list_of_set (set ks))" by simp
    then have "tally_line ks a \<in> set (map (tally_line ks) (sorted_list_of_set (set ks)))"
      by (simp only: set_map) (rule imageI)
    moreover have "tally_line ks a \<noteq> []" by (simp add: tally_line_def)
    ultimately show ?thesis using Cons by auto
  qed
  show ?thesis
    unfolding distribution_msg_def Let_def msg empty expected_distribution_def
    by (rule refl)
qed

text \<open>
  The counting step of the source on ordinary names: it does not throw and counts as the
  dictionary does. The keys of the status codes are ordinary.
\<close>

lemma count_key_ordinary:
  "ordinary k \<Longrightarrow> map_of acc ''hasOwnProperty'' = None \<Longrightarrow> count_key acc k = Inr (tally_key acc k)"
  by (cases "map_of acc k")
     (simp_all add: count_key_def hasOwnProperty_plain set_property_plain tally_key_def count_at_def
        ordinary_def)

lemma tally_key_keeps:
  "ordinary k \<Longrightarrow> map_of acc ''hasOwnProperty'' = None \<Longrightarrow>
   map_of (tally_key acc k) ''hasOwnProperty'' = None"
  by (auto simp: map_of_tally_key ordinary_def)

lemma count_keys_ordinary:
  "\<forall>k\<in>set ks. ordinary k \<Longrightarrow> map_of acc ''hasOwnProperty'' = None \<Longrightarrow>
   count_keys acc ks = Inr (foldl tally_key acc ks)"
proof (induction ks arbitrary: acc)
  case Nil
  then show ?case by simp
next
  case (Cons k ks)
  then have o: "ordinary k" and os: "\<forall>k\<in>set ks. ordinary k" by simp_all
  show ?case
    using Cons.IH[OF os tally_key_keeps[OF o Cons.prems(2)]]
    by (simp add: count_key_ordinary[OF o Cons.prems(2)])
qed

lemma status_key_ordinary: "ordinary (''statusCode'' @ x)"
  by (simp add: ordinary_def)

lemma countResponseCodes_forEach_tally:
  "\<forall>td\<in>set tds. stepsData td \<noteq> [] \<Longrightarrow> map_of acc ''hasOwnProperty'' = None \<Longrightarrow>
   countResponseCodes_forEach tds acc = Inr (foldl tally_key acc (map status_key tds))"
proof (induction tds arbitrary: acc)
  case Nil
  then show ?case by simp
next
  case (Cons td tds)
  let ?k = "status_key td"
  have o: "ordinary ?k" unfolding status_key_def by (rule status_key_ordinary)
  from Cons.prems have ne: "stepsData td \<noteq> []" and nes: "\<forall>td\<in>set tds. stepsData td \<noteq> []"
    by simp_all
  have g: "getStepDataWithError td = Some (last (stepsData td))"
    using ne by (simp add: getStepDataWithError_last)
  have c: "count_key acc (''statusCode'' @ string_of_statusCode (responseStatusCode (last (stepsData td)))) =
           Inr (tally_key acc ?k)"
    using count_key_ordinary[OF o Cons.prems(2)] by (simp add: status_key_def)
  note ih = Cons.IH[OF nes tally_key_keeps[OF o Cons.prems(2)]]
  show ?case
    by (simp only: countResponseCodes_forEach.simps g option.case c sum.case list.map foldl_Cons ih)
qed

lemma stepNamesThatFailed_names:
  "\<forall>td\<in>set tds. stepsData td \<noteq> [] \<Longrightarrow>
   stepNamesThatFailed tds = Inr (map failed_step_name tds)"
  by (induction tds) (simp_all add: getStepDataWithError_last failed_step_name_def)

lemma status_code_reports:
  assumes "\<forall>td\<in>set tds. stepsData td \<noteq> []"
  shows "countResponseCodes tds = Inr (foldl tally_key [] (map status_key tds))"
    and "generateDistributionReportForStatusCode tds = Inr (expected_distribution (map status_key tds))"
proof -
  show c: "countResponseCodes tds = Inr (foldl tally_key [] (map status_key tds))"
    unfolding countResponseCodes_def by (rule countResponseCodes_forEach_tally[OF assms]) simp
  show "generateDistributionReportForStatusCode tds = Inr (expected_distribution (map status_key tds))"
    unfolding generateDistributionReportForStatusCode_def c
    by (simp only: sum.case distribution_msg_tally)
qed

lemma step_name_reports:
  assumes "\<forall>td\<in>set tds. stepsData td \<noteq> []" and "\<forall>td\<in>set tds. ordinary (failed_step_name td)"
  shows "countErroredSteps tds = Inr (foldl tally_key [] (map failed_step_name tds))"
    and "generateDistributionReportForErroredSteps tds =
           Inr (expected_distribution (map failed_step_name tds))"
proof -
  have o: "\<forall>k\<in>set (map failed_step_name tds). ordinary k" using assms(2) by simp
  have c: "count_keys [] (map failed_step_name tds) = Inr (foldl tally_key [] (map failed_step_name tds))"
    by (rule count_keys_ordinary[OF o]) simp
  show n: "countErroredSteps tds = Inr (foldl tally_key [] (map failed_step_name tds))"
    unfolding countErroredSteps_def
    by (simp only: stepNamesThatFailed_names[OF assms(1)] sum.case c)
  show "generateDistributionReportForErroredSteps tds =
          Inr (expected_distribution (map failed_step_name tds))"
    unfolding generateDistributionReportForErroredSteps_def n
    by (simp only: sum.case distribution_msg_tally)
qed

text \<open>
  When every failed run has step data and fails at a step of an ordinary name, both
  tallies are computed; each has one entry per key, the count of a key is the number of
  failed runs whose last step data has that key, and the counts add up to the number of
  failed runs. Each distribution is rendered as the literal N/A when no run failed, and
  otherwise as one line per key, key, colon and count, with the keys in ascending order.
\<close>

lemma failure_distributions_of_ordinary_names:
  assumes "\<forall>td\<in>set results. \<not> succeeded td \<longrightarrow> stepsData td \<noteq> [] \<and> ordinary (failed_step_name td)"
  shows "\<exists>codes names.
           countResponseCodes (filter (\<lambda>r. \<not> succeeded r) results) = Inr codes
         \<and> countErroredSteps (filter (\<lambda>r. \<not> succeeded r) results) = Inr names
         \<and> distinct (map fst codes) \<and> distinct (map fst names)
         \<and> (\<forall>k. map_of codes k =
                (if k \<in> status_key ` set (filter (\<lambda>r. \<not> succeeded r) results)
                 then Some (count_list (map status_key (filter (\<lambda>r. \<not> succeeded r) results)) k) else None))
         \<and> (\<forall>k. map_of names k =
                (if k \<in> failed_step_name ` set (filter (\<lambda>r. \<not> succeeded r) results)
                 then Some (count_list (map failed_step_name (filter (\<lambda>r. \<not> succeeded r) results)) k) else None))
         \<and> sum_list (map snd codes) = length (filter (\<lambda>r. \<not> succeeded r) results)
         \<and> sum_list (map snd names) = length (filter (\<lambda>r. \<not> succeeded r) results)
         \<and> generateDistributionReportForStatusCode (filter (\<lambda>r. \<not> succeeded r) results) =
             Inr (expected_distribution (map status_key (filter (\<lambda>r. \<not> succeeded r) results)))
         \<and> generateDistributionReportForErroredSteps (filter (\<lambda>r. \<not> succeeded r) results) =
             Inr (expected_distribution (map failed_step_name (filter (\<lambda>r. \<not> succeeded r) results)))"
proof -
  let ?failed = "filter (\<lambda>r. \<not> succeeded r) results"
  have ne: "\<forall>td\<in>set ?failed. stepsData td \<noteq> []" using assms by simp
  have o: "\<forall>td\<in>set ?failed. ordinary (failed_step_name td)" using assms by simp
  note reports = status_code_reports[OF ne] step_name_reports[OF ne o]
  have d: "\<And>ks. distinct (map fst (foldl tally_key [] ks))"
    by (rule distinct_foldl_tally_key) simp
  have s: "\<And>ks. sum_list (map snd (foldl tally_key [] ks)) = length ks"
    by (simp add: sum_foldl_tally_key)
  show ?thesis
    apply (rule exI[of _ "foldl tally_key [] (map status_key ?failed)"])
    apply (rule exI[of _ "foldl tally_key [] (map failed_step_name ?failed)"])
    using reports by (simp add: d map_of_tally s del: set_filter)
qed

text \<open>
  C6. The specification has every failed run counted in both distributions. The tally of
  the step names is a plain object: for two runs that fail at a step named
  \<^verbatim>\<open>__proto__\<close>, a name \<^verbatim>\<open>addStep\<close> accepts, the assignments change nothing, the tally
  stays empty and the distribution is rendered as N/A although two runs failed; for two
  runs that fail at a step named \<^verbatim>\<open>hasOwnProperty\<close> the second guard throws. The tally
  of the status codes, whose keys begin with \<^verbatim>\<open>statusCode\<close>, counts both runs.
\<close>

theorem step_name_tally_loses_runs:
  "map_sum id (map name) (addStep (example_step ''__proto__'' 200 0) []) = Inr [''__proto__'']
   \<and> filter (\<lambda>r. \<not> succeeded r) [run_failed_proto ''p1'', run_failed_proto ''p2''] =
       [run_failed_proto ''p1'', run_failed_proto ''p2'']
   \<and> map failed_step_name [run_failed_proto ''p1'', run_failed_proto ''p2''] =
       [''__proto__'', ''__proto__'']
   \<and> countErroredSteps [run_failed_proto ''p1'', run_failed_proto ''p2''] = Inr []
   \<and> generateDistributionReportForErroredSteps [run_failed_proto ''p1'', run_failed_proto ''p2''] =
       Inr ''N/A''
   \<and> countResponseCodes [run_failed_proto ''p1'', run_failed_proto ''p2''] =
       Inr [(''statusCode500'', 2)]
   \<and> countErroredSteps [run_failed_hasOwnProperty ''h1'', run_failed_hasOwnProperty ''h2''] =
       Inl TypeError"
  by (simp add: example_defs addStep_def allowedMethods_def normalizeUrl_def indexOf_def
      failed_step_name_def countErroredSteps_def getStepDataWithError_def count_key_def
      hasOwnProperty_def set_property_def count_at_def generateDistributionReportForErroredSteps_def
      distribution_msg_def Object_keys_def countResponseCodes_def string_of_statusCode_def
      Number_toString_def digit_char_def)

section \<open>The per-step averages\<close>

lemma results_named_Nil: "results_named S [] = []"
  by (simp add: results_named_def map_filter_simps)

lemma results_named_Cons:
  "results_named S (td # tds) =
     (case result_for S td of None \<Rightarrow> results_named S tds | Some sd \<Rightarrow> sd # results_named S tds)"
  by (simp add: results_named_def map_filter_simps split: option.splits)

lemma count_execution_miss: "result_for S td = None \<Longrightarrow> count_execution S st td = st"
  by (simp add: count_execution_def result_for_def)

lemma count_execution_hit:
  "S \<noteq> ''__proto__'' \<Longrightarrow> result_for S td = Some sd \<Longrightarrow> total_of t S = Num a \<Longrightarrow>
   count_execution S (e, t) td =
     (AList.update S (Suc (executions_of e S)) e,
      AList.update S (Num (a + of_int (responseTime sd))) t)"
  by (simp add: count_execution_def result_for_def set_property_plain)

lemma count_execution_frame:
  "k \<noteq> S \<Longrightarrow>
   map_of (fst (count_execution S st td)) k = map_of (fst st) k
   \<and> map_of (snd (count_execution S st td)) k = map_of (snd st) k"
  by (simp add: count_execution_def set_property_def update_conv' split: option.splits)

lemma foldl_count_execution_frame:
  "k \<noteq> S \<Longrightarrow>
   map_of (fst (foldl (count_execution S) st tds)) k = map_of (fst st) k
   \<and> map_of (snd (foldl (count_execution S) st tds)) k = map_of (snd st) k"
  by (induction tds arbitrary: st) (simp_all add: count_execution_frame)

lemma total_of_update: "total_of (AList.update S v t) S = v"
  by (simp add: total_of_def update_conv')

lemma executions_of_update: "executions_of (AList.update S v e) S = v"
  by (simp add: executions_of_def update_conv')

lemma inner_loop:
  "S \<noteq> ''__proto__'' \<Longrightarrow> total_of t S = Num a \<Longrightarrow>
   map_of (fst (foldl (count_execution S) (e, t) tds)) =
     (if results_named S tds = [] then map_of e
      else (map_of e)(S \<mapsto> executions_of e S + length (results_named S tds)))
   \<and> map_of (snd (foldl (count_execution S) (e, t) tds)) =
     (if results_named S tds = [] then map_of t
      else (map_of t)(S \<mapsto> Num (a + of_int (sum_list (times_for S tds)))))"
proof (induction tds arbitrary: e t a)
  case Nil
  then show ?case by (simp add: results_named_Nil)
next
  case (Cons td tds)
  show ?case
  proof (cases "result_for S td")
    case None
    have r: "results_named S (td # tds) = results_named S tds"
      by (simp add: results_named_Cons None)
    have t: "times_for S (td # tds) = times_for S tds"
      by (simp add: times_for_def r)
    show ?thesis
      unfolding r t using Cons.IH[OF Cons.prems, of e]
      by (simp add: count_execution_miss[OF None])
  next
    case (Some sd)
    let ?e1 = "AList.update S (Suc (executions_of e S)) e"
    let ?t1 = "AList.update S (Num (a + of_int (responseTime sd))) t"
    have r: "results_named S (td # tds) = sd # results_named S tds"
      by (simp add: results_named_Cons Some)
    have tm: "sum_list (times_for S (td # tds)) = responseTime sd + sum_list (times_for S tds)"
      by (simp add: times_for_def r)
    have step: "foldl (count_execution S) (e, t) (td # tds) = foldl (count_execution S) (?e1, ?t1) tds"
      by (simp add: count_execution_hit[OF Cons.prems(1) Some Cons.prems(2)])
    have p: "total_of ?t1 S = Num (a + of_int (responseTime sd))" by (rule total_of_update)
    note ih = Cons.IH[OF Cons.prems(1) p, of ?e1]
    show ?thesis
    proof (cases "results_named S tds = []")
      case True
      have z: "sum_list (times_for S tds) = 0" by (simp add: times_for_def True)
      show ?thesis
        unfolding step r tm using ih True
        by (simp add: update_conv' z)
    next
      case False
      show ?thesis
        unfolding step r tm using ih False
        by (simp add: update_conv' executions_of_update add.assoc)
    qed
  qed
qed


lemma counted_stepName_frame:
  "k \<noteq> S \<Longrightarrow>
   map_of (fst (counted_stepName tds st S)) k = map_of (fst st) k
   \<and> map_of (snd (counted_stepName tds st S)) k = map_of (snd st) k"
  using foldl_count_execution_frame[of k S]
  by (simp add: counted_stepName_def Let_def update_conv')

text \<open>
  On ordinary names, and while no property is named \<^verbatim>\<open>hasOwnProperty\<close>, the guards do
  not throw and the loops of the source are those of a dictionary.
\<close>

lemma count_stepName_ordinary:
  "ordinary S \<Longrightarrow> map_of (fst st) ''hasOwnProperty'' = None \<Longrightarrow>
   map_of (snd st) ''hasOwnProperty'' = None \<Longrightarrow>
   count_stepName tds st S = Inr (counted_stepName tds st S)"
  by (simp add: count_stepName_def counted_stepName_def hasOwnProperty_plain set_property_plain
      ordinary_def Let_def)

lemma count_stepNames_ordinary:
  "\<forall>S\<in>set ns. ordinary S \<Longrightarrow> map_of (fst st) ''hasOwnProperty'' = None \<Longrightarrow>
   map_of (snd st) ''hasOwnProperty'' = None \<Longrightarrow>
   count_stepNames tds st ns = Inr (foldl (counted_stepName tds) st ns)"
proof (induction ns arbitrary: st)
  case Nil
  then show ?case by simp
next
  case (Cons S ns)
  from Cons.prems(1) have o: "ordinary S" and os: "\<forall>S\<in>set ns. ordinary S" by simp_all
  from o have ne: "''hasOwnProperty'' \<noteq> S" by (auto simp: ordinary_def)
  have f: "map_of (fst (counted_stepName tds st S)) ''hasOwnProperty'' = None"
          "map_of (snd (counted_stepName tds st S)) ''hasOwnProperty'' = None"
    using counted_stepName_frame[OF ne, of tds st] Cons.prems(2,3) by simp_all
  show ?case
    using Cons.IH[OF os f]
    by (simp add: count_stepName_ordinary[OF o Cons.prems(2,3)])
qed

lemma counted_stepName_effect:
  assumes "S \<noteq> ''__proto__''"
    and "map_of t S = None \<or> map_of t S = Some (Num a)" and "map_of t S = None \<Longrightarrow> a = 0"
  shows "executions_of (fst (counted_stepName tds (e, t) S)) k =
           (if k = S then executions_of e S + length (results_named S tds) else executions_of e k)"
    and "map_of (snd (counted_stepName tds (e, t) S)) k =
           (if k = S then Some (Num (a + of_int (sum_list (times_for S tds)))) else map_of t k)"
proof -
  let ?e0 = "if map_of e S = None then AList.update S 0 e else e"
  let ?t0 = "if map_of t S = None then AList.update S (Num 0) t else t"
  have cs: "counted_stepName tds (e, t) S = foldl (count_execution S) (?e0, ?t0) tds"
    by (simp add: counted_stepName_def Let_def)
  have t0: "total_of ?t0 S = Num a"
    using assms(2,3) by (auto simp: total_of_def update_conv')
  have e0: "executions_of ?e0 k = executions_of e k" for k
    by (auto simp: executions_of_def update_conv')
  have mt0: "map_of ?t0 k = (if k = S then Some (Num a) else map_of t k)"
    using assms(2,3) by (auto simp: update_conv')
  note il = inner_loop[OF assms(1) t0, of ?e0 tds]
  show "executions_of (fst (counted_stepName tds (e, t) S)) k =
           (if k = S then executions_of e S + length (results_named S tds) else executions_of e k)"
  proof (cases "results_named S tds = []")
    case True
    have "executions_of (fst (counted_stepName tds (e, t) S)) k = executions_of ?e0 k"
      unfolding cs executions_of_def using il True by simp
    then show ?thesis using True by (simp only: e0) simp
  next
    case False
    have "map_of (fst (counted_stepName tds (e, t) S)) =
          (map_of ?e0)(S \<mapsto> executions_of ?e0 S + length (results_named S tds))"
      unfolding cs using il False by simp
    then have "executions_of (fst (counted_stepName tds (e, t) S)) k =
          (if k = S then executions_of ?e0 S + length (results_named S tds) else executions_of ?e0 k)"
      unfolding executions_of_def by simp
    then show ?thesis by (simp only: e0)
  qed
  show "map_of (snd (counted_stepName tds (e, t) S)) k =
           (if k = S then Some (Num (a + of_int (sum_list (times_for S tds)))) else map_of t k)"
  proof (cases "results_named S tds = []")
    case True
    have z: "sum_list (times_for S tds) = 0" by (simp add: times_for_def True)
    have "map_of (snd (counted_stepName tds (e, t) S)) k = map_of ?t0 k"
      unfolding cs using il True by simp
    then show ?thesis by (simp only: mt0 z) simp
  next
    case False
    have "map_of (snd (counted_stepName tds (e, t) S)) k =
          ((map_of ?t0)(S \<mapsto> Num (a + of_int (sum_list (times_for S tds))))) k"
      unfolding cs using il False by simp
    then show ?thesis by (simp only: mt0 fun_upd_apply) simp
  qed
qed

lemma outer_loop:
  "''__proto__'' \<notin> set ns \<Longrightarrow>
   (\<forall>k. executions_of (fst (foldl (counted_stepName tds) ([], []) ns)) k =
          count_list ns k * length (results_named k tds))
   \<and> (\<forall>k. map_of (snd (foldl (counted_stepName tds) ([], []) ns)) k =
          (if k \<in> set ns
           then Some (Num (of_nat (count_list ns k) * of_int (sum_list (times_for k tds))))
           else None))"
proof (induction ns rule: rev_induct)
  case Nil
  then show ?case by (simp add: executions_of_def)
next
  case (snoc S ns)
  from snoc.prems have np: "S \<noteq> ''__proto__''" and nps: "''__proto__'' \<notin> set ns" by auto
  note ih = snoc.IH[OF nps]
  obtain e t where st: "foldl (counted_stepName tds) ([], []) ns = (e, t)"
    by (cases "foldl (counted_stepName tds) ([], []) ns")
  from ih st have E: "\<And>k. executions_of e k = count_list ns k * length (results_named k tds)"
    and T: "\<And>k. map_of t k =
          (if k \<in> set ns
           then Some (Num (of_nat (count_list ns k) * of_int (sum_list (times_for k tds))))
           else None)" by simp_all
  let ?a = "of_nat (count_list ns S) * of_int (sum_list (times_for S tds)) :: rat"
  have a1: "map_of t S = None \<or> map_of t S = Some (Num ?a)" by (simp add: T)
  have a2: "map_of t S = None \<Longrightarrow> ?a = 0" by (simp add: T split: if_splits)
  have step: "foldl (counted_stepName tds) ([], []) (ns @ [S]) = counted_stepName tds (e, t) S"
    by (simp add: st)
  have X: "executions_of (fst (counted_stepName tds (e, t) S)) k =
           count_list (ns @ [S]) k * length (results_named k tds)" for k
    using counted_stepName_effect(1)[OF np a1 a2, of tds e k] by (cases "k = S") (simp_all add: E)
  have Y: "map_of (snd (counted_stepName tds (e, t) S)) k =
          (if k \<in> set (ns @ [S])
           then Some (Num (of_nat (count_list (ns @ [S]) k) * of_int (sum_list (times_for k tds))))
           else None)" for k
    using counted_stepName_effect(2)[OF np a1 a2, of tds e k] by (cases "k = S") (simp_all add: T algebra_simps)
  show ?case
    unfolding step using X Y by blast
qed


lemma map_of_foldl_update:
  "map_of (foldl (\<lambda>acc k. AList.update k (g k) acc) acc0 ks) k =
     (if k \<in> set ks then Some (g k) else map_of acc0 k)"
  by (induction ks arbitrary: acc0) (simp_all add: update_conv')

lemma keys_foldl_update:
  "set (map fst (foldl (\<lambda>acc k. AList.update k (g k) acc) [] ks)) = set ks"
proof -
  have "dom (map_of (foldl (\<lambda>acc k. AList.update k (g k) acc) [] ks)) = set ks"
    by (auto simp: dom_def map_of_foldl_update)
  then show ?thesis by (simp add: dom_map_of_conv_image_fst)
qed

lemma distinct_foldl_update:
  "distinct (map fst acc0) \<Longrightarrow>
   distinct (map fst (foldl (\<lambda>acc k. AList.update k (g k) acc) acc0 ks))"
  by (induction ks arbitrary: acc0) (simp_all add: distinct_update)

lemma foldl_set_property_plain:
  "''__proto__'' \<notin> set ks \<Longrightarrow>
   foldl (\<lambda>acc k. set_property k (g k) acc) acc0 ks = foldl (\<lambda>acc k. AList.update k (g k) acc) acc0 ks"
  by (induction ks arbitrary: acc0) (auto simp: set_property_plain)

lemma result_for_first:
  "S \<in> set (map (\<lambda>stepData. name (step stepData)) (stepsData td)) \<Longrightarrow> result_for S td \<noteq> None"
  by (auto simp: result_for_def find_None_iff)

lemma js_div_repeated:
  "0 < c \<Longrightarrow> 0 < n \<Longrightarrow>
   js_div (Num (of_nat c * of_int s)) (c * n) = Num (of_int s / of_nat n)"
  by simp

text \<open>
  What \<^verbatim>\<open>find\<close> returns is the first step data of the name; with names that are distinct
  within each run it is the only one.
\<close>

lemma find_first_of_filter:
  "find P xs = (case filter P xs of [] \<Rightarrow> None | x # _ \<Rightarrow> Some x)"
  by (induction xs) simp_all

lemma times_for_first_times: "times_for S tds = first_times S tds"
proof (induction tds)
  case Nil
  then show ?case by (simp add: times_for_def first_times_def results_named_Nil)
next
  case (Cons td tds)
  have "times_for S (td # tds) =
        take 1 (map responseTime (filter (\<lambda>sd. name (step sd) = S) (stepsData td))) @ times_for S tds"
    by (cases "filter (\<lambda>sd. name (step sd) = S) (stepsData td)")
       (simp_all add: times_for_def results_named_Cons result_for_def find_first_of_filter)
  then show ?case using Cons.IH by (simp add: first_times_def)
qed

lemma length_first_times:
  "length (first_times S tds) =
   length (filter (\<lambda>td. \<exists>sd\<in>set (stepsData td). name (step sd) = S) tds)"
proof (induction tds)
  case Nil
  then show ?case by (simp add: first_times_def)
next
  case (Cons td tds)
  have "length (take 1 (map responseTime (filter (\<lambda>sd. name (step sd) = S) (stepsData td)))) =
        (if \<exists>sd\<in>set (stepsData td). name (step sd) = S then 1 else 0)"
    by (cases "filter (\<lambda>sd. name (step sd) = S) (stepsData td)")
       (auto simp: filter_empty_conv dest: filter_eq_ConsD)
  then show ?case using Cons.IH by (simp add: first_times_def)
qed

lemma filter_distinct_key:
  "distinct (map f xs) \<Longrightarrow> length (filter (\<lambda>x. f x = a) xs) \<le> 1"
proof (induction xs)
  case Nil
  then show ?case by simp
next
  case (Cons x xs)
  show ?case
  proof (cases "f x = a")
    case True
    with Cons.prems have "a \<notin> f ` set xs" by auto
    then have "filter (\<lambda>x. f x = a) xs = []" by (auto simp: filter_empty_conv)
    with True show ?thesis by simp
  next
    case False
    with Cons show ?thesis by simp
  qed
qed

lemma first_times_all_times:
  "\<forall>td\<in>set tds. distinct (map (\<lambda>sd. name (step sd)) (stepsData td)) \<Longrightarrow>
   first_times S tds = all_times S tds"
proof (induction tds)
  case Nil
  then show ?case by (simp add: first_times_def all_times_def)
next
  case (Cons td tds)
  from Cons.prems have "length (filter (\<lambda>sd. name (step sd) = S) (stepsData td)) \<le> 1"
    by (intro filter_distinct_key) simp
  then have "take 1 (map responseTime (filter (\<lambda>sd. name (step sd) = S) (stepsData td))) =
             map responseTime (filter (\<lambda>sd. name (step sd) = S) (stepsData td))"
    by simp
  then show ?case using Cons by (simp add: first_times_def all_times_def)
qed

text \<open>
  C5 (as amended). For a non-empty collection whose first run has step data of ordinary
  names only, the per-step averages have exactly the step names of the first run's step
  data as keys, each once. For each of these names at least one run has a step data of
  that name, and the average is the mean of the elapsed times of the first step data of
  that name of each run that has one; there is one such time per run that has a step data
  of the name. When no run has two step data of one name, this is the mean of the elapsed
  times of all step data of that name.
\<close>

theorem per_step_averages:
  assumes "testsData \<noteq> []"
    and "\<forall>sd\<in>set (stepsData (hd testsData)). ordinary (name (step sd))"
  shows "\<exists>avgs. computeAvgResponseTimeForEachStep testsData = Inr avgs
           \<and> distinct (map fst avgs)
           \<and> set (map fst avgs) = set (map (\<lambda>stepData. name (step stepData)) (stepsData (hd testsData)))
           \<and> (\<forall>S \<in> set (map fst avgs).
                  first_times S testsData \<noteq> []
                \<and> length (first_times S testsData) =
                    length (filter (\<lambda>td. \<exists>sd\<in>set (stepsData td). name (step sd) = S) testsData)
                \<and> map_of avgs S = Some (Num (mean (first_times S testsData))))
           \<and> ((\<forall>td\<in>set testsData. distinct (map (\<lambda>sd. name (step sd)) (stepsData td))) \<longrightarrow>
                (\<forall>S \<in> set (map fst avgs). map_of avgs S = Some (Num (mean (all_times S testsData)))))"
proof -
  from assms(1) obtain first rest where tds: "testsData = first # rest" by (cases testsData) auto
  let ?names = "map (\<lambda>stepData. name (step stepData)) (stepsData first)"
  have o: "\<forall>S\<in>set ?names. ordinary S" using assms(2) by (simp add: tds)
  then have np: "''__proto__'' \<notin> set ?names" by (auto simp: ordinary_def)
  let ?counted = "foldl (counted_stepName testsData) ([], []) ?names"
  let ?g = "\<lambda>S. js_div (total_of (snd ?counted) S) (executions_of (fst ?counted) S)"
  let ?avgs = "foldl (\<lambda>acc S. AList.update S (?g S) acc) [] ?names"
  have cs: "count_stepNames testsData ([], []) ?names = Inr ?counted"
    by (rule count_stepNames_ordinary[OF o]) simp_all
  have run: "computeAvgResponseTimeForEachStep testsData = Inr ?avgs"
    by (simp add: computeAvgResponseTimeForEachStep_def tds Let_def cs[unfolded tds]
        foldl_set_property_plain[OF np])
  have d: "distinct (map fst ?avgs)" by (rule distinct_foldl_update) simp
  have k: "set (map fst ?avgs) = set ?names" by (rule keys_foldl_update)
  have v: "first_times S testsData \<noteq> []
           \<and> length (first_times S testsData) =
               length (filter (\<lambda>td. \<exists>sd\<in>set (stepsData td). name (step sd) = S) testsData)
           \<and> map_of ?avgs S = Some (Num (mean (first_times S testsData)))"
    if S: "S \<in> set ?names" for S
  proof -
    have hit: "result_for S first \<noteq> None" using S by (rule result_for_first)
    then have ne: "results_named S testsData \<noteq> []"
      by (auto simp: tds results_named_Cons split: option.splits)
    then have n: "0 < length (results_named S testsData)" by simp
    have "count_list ?names S \<noteq> 0" using S by (simp only: count_list_0_iff) simp
    then have c: "0 < count_list ?names S" by simp
    have len: "length (times_for S testsData) = length (results_named S testsData)"
      by (simp add: times_for_def)
    have e: "executions_of (fst ?counted) S = count_list ?names S * length (results_named S testsData)"
      using outer_loop[OF np, of testsData] by blast
    have "map_of (snd ?counted) S =
          Some (Num (of_nat (count_list ?names S) * of_int (sum_list (times_for S testsData))))"
      using outer_loop[OF np, of testsData] S by simp
    then have t: "total_of (snd ?counted) S =
          Num (of_nat (count_list ?names S) * of_int (sum_list (times_for S testsData)))"
      by (simp add: total_of_def)
    have "?g S = Num (of_int (sum_list (times_for S testsData)) / of_nat (length (times_for S testsData)))"
      unfolding e t len by (rule js_div_repeated[OF c n])
    then have g: "?g S = Num (mean (first_times S testsData))"
      by (simp add: mean_def times_for_first_times)
    have m: "map_of ?avgs S = Some (?g S)"
      using S by (simp only: map_of_foldl_update if_True)
    have "first_times S testsData \<noteq> []"
      using ne by (simp add: times_for_first_times[symmetric] times_for_def)
    with g m length_first_times[of S testsData] show ?thesis by simp
  qed
  have w: "map_of ?avgs S = Some (Num (mean (all_times S testsData)))"
    if "\<forall>td\<in>set testsData. distinct (map (\<lambda>sd. name (step sd)) (stepsData td))"
      and "S \<in> set ?names" for S
    using v[OF that(2)] first_times_all_times[OF that(1), of S] by simp
  have hd: "hd testsData = first" by (simp add: tds)
  have k': "set (map fst ?avgs) =
            set (map (\<lambda>stepData. name (step stepData)) (stepsData (hd testsData)))"
    unfolding hd by (rule k)
  have v': "\<forall>S \<in> set (map fst ?avgs).
                  first_times S testsData \<noteq> []
                \<and> length (first_times S testsData) =
                    length (filter (\<lambda>td. \<exists>sd\<in>set (stepsData td). name (step sd) = S) testsData)
                \<and> map_of ?avgs S = Some (Num (mean (first_times S testsData)))"
    unfolding k using v by (rule ballI)
  have w': "(\<forall>td\<in>set testsData. distinct (map (\<lambda>sd. name (step sd)) (stepsData td))) \<longrightarrow>
                (\<forall>S \<in> set (map fst ?avgs). map_of ?avgs S = Some (Num (mean (all_times S testsData))))"
    unfolding k using w by (intro impI ballI)
  show ?thesis
    by (rule exI[of _ ?avgs]) (intro conjI run d k' v' w')
qed

lemma example_first_names:
  "map (\<lambda>stepData. name (step stepData)) (stepsData (hd example_results)) = [''login'', ''list'']"
  by (simp add: example_results_def example_defs)

lemma example_times_login: "first_times ''login'' example_results = [50, 90]"
  by (simp add: first_times_def example_results_def example_defs)

lemma example_times_list: "first_times ''list'' example_results = [50]"
  by (simp add: first_times_def example_results_def example_defs)

text \<open>
  In the example the first run has the steps login and list; login took 50 ms and 90 ms in
  the two runs that have it, list took 50 ms in the one run that has it.
\<close>

theorem per_step_averages_witness:
  "example_results \<noteq> []
   \<and> list_all ordinary (map (\<lambda>stepData. name (step stepData)) (stepsData (hd example_results)))
   \<and> (\<exists>avgs. computeAvgResponseTimeForEachStep example_results = Inr avgs
          \<and> set (map fst avgs) = {''login'', ''list''}
          \<and> map_of avgs ''login'' = Some (Num 70)
          \<and> map_of avgs ''list'' = Some (Num 50))"
proof -
  have ne: "example_results \<noteq> []" by (simp add: example_results_def)
  have o: "list_all ordinary (map (\<lambda>stepData. name (step stepData)) (stepsData (hd example_results)))"
    by (simp add: example_first_names ordinary_def)
  then have o': "\<forall>sd\<in>set (stepsData (hd example_results)). ordinary (name (step sd))"
    by (simp add: list_all_iff)
  from per_step_averages[OF ne o']
  obtain avgs where
    r: "computeAvgResponseTimeForEachStep example_results = Inr avgs"
    and k: "set (map fst avgs) =
            set (map (\<lambda>stepData. name (step stepData)) (stepsData (hd example_results)))"
    and v: "\<forall>S \<in> set (map fst avgs).
              first_times S example_results \<noteq> []
            \<and> length (first_times S example_results) =
                length (filter (\<lambda>td. \<exists>sd\<in>set (stepsData td). name (step sd) = S) example_results)
            \<and> map_of avgs S = Some (Num (mean (first_times S example_results)))"
    by blast
  have k': "set (map fst avgs) = {''login'', ''list''}"
    using k by (simp only: example_first_names) simp
  have "map_of avgs ''login'' = Some (Num 70)"
    using v[rule_format, of "''login''"] k' by (simp add: example_times_login mean_def)
  moreover have "map_of avgs ''list'' = Some (Num 50)"
    using v[rule_format, of "''list''"] k' by (simp add: example_times_list mean_def)
  ultimately show ?thesis using ne o r k' by blast
qed

text \<open>
  C5 as stated fails where a name is registered twice: the run of two steps named a,
  answered after 10 ms and after 30 ms, has the two elapsed times 10 and 30 for the name,
  whose mean is 20, and the per-step average of the name is 10.
\<close>

theorem per_step_average_same_name_counterexample:
  "computeAvgResponseTimeForEachStep [run_same_name_twice] = Inr [(''a'', Num 10)]
   \<and> all_times ''a'' [run_same_name_twice] = [10, 30]
   \<and> mean (all_times ''a'' [run_same_name_twice]) = 20"
  by (simp add: example_defs computeAvgResponseTimeForEachStep_def count_stepName_def
      count_execution_def hasOwnProperty_def set_property_def executions_of_def total_of_def
      all_times_def mean_def Let_def)

section \<open>The averages of the successes and of the failures\<close>

lemma reproduction_hint_resolves:
  "\<forall>td\<in>set tds. stepsData td \<noteq> [] \<Longrightarrow> \<exists>h. reproduction_hint tds = Inr h"
  by (cases tds) (simp_all add: reproduction_hint_def getStepWithError_def getStepDataWithError_last)

lemma computeAvgResponseTimeForEachStep_resolves:
  assumes "results \<noteq> []" and "\<forall>sd\<in>set (stepsData (hd results)). ordinary (name (step sd))"
  shows "\<exists>avgs. computeAvgResponseTimeForEachStep results = Inr avgs"
proof -
  from assms(1) obtain first rest where r: "results = first # rest" by (cases results) auto
  have o: "\<forall>S\<in>set (map (\<lambda>stepData. name (step stepData)) (stepsData first)). ordinary S"
    using assms(2) by (simp add: r)
  have "count_stepNames results ([], []) (map (\<lambda>stepData. name (step stepData)) (stepsData first)) =
        Inr (foldl (counted_stepName results) ([], [])
               (map (\<lambda>stepData. name (step stepData)) (stepsData first)))"
    by (rule count_stepNames_ordinary[OF o]) simp_all
  then show ?thesis
    by (simp add: computeAvgResponseTimeForEachStep_def Let_def r)
qed

text \<open>
  The report is produced for runs whose step names are ordinary, when every run that failed
  has a step data.
\<close>

lemma printReport_resolves:
  assumes "results \<noteq> []"
    and "\<forall>td\<in>set results. \<not> succeeded td \<longrightarrow> stepsData td \<noteq> [] \<and> ordinary (failed_step_name td)"
    and "\<forall>sd\<in>set (stepsData (hd results)). ordinary (name (step sd))"
  shows "\<exists>rep. printReport results = Inr rep"
proof -
  let ?failed = "filter (\<lambda>r. \<not> succeeded r) results"
  have ne: "\<forall>td\<in>set ?failed. stepsData td \<noteq> []" using assms(2) by simp
  have o: "\<forall>td\<in>set ?failed. ordinary (failed_step_name td)" using assms(2) by simp
  obtain h where h: "reproduction_hint ?failed = Inr h"
    using reproduction_hint_resolves[OF ne] by blast
  obtain avgs where a: "computeAvgResponseTimeForEachStep results = Inr avgs"
    using computeAvgResponseTimeForEachStep_resolves[OF assms(1,3)] by blast
  show ?thesis
    by (simp add: printReport_def Let_def h a status_code_reports(2)[OF ne]
        step_name_reports(2)[OF ne o])
qed

text \<open>
  C7. In a report \<^verbatim>\<open>printReport\<close> produces, the average of the successes is the text N/A
  when no run succeeded, and the average of the failures is N/A when no run failed: the
  NaN of the division by zero is falsy.
\<close>

theorem empty_subset_average_is_NA:
  assumes "printReport results = Inr rep"
  shows "(filter (\<lambda>r. succeeded r) results = [] \<longrightarrow> avg_successes rep = NA)
       \<and> (filter (\<lambda>r. \<not> succeeded r) results = [] \<longrightarrow> avg_failures rep = NA)"
  using printReport_averages[OF assms]
  by (simp add: computeAvgResponseTimeForTests_def computeAvg_empty or_NA_def falsy_def)

theorem empty_subset_average_is_NA_witness:
  "(\<exists>rep. printReport [run_ok] = Inr rep
        \<and> filter (\<lambda>r. \<not> succeeded r) [run_ok] = [] \<and> avg_failures rep = NA)
   \<and> (\<exists>rep. printReport [run_failed_500] = Inr rep
        \<and> filter (\<lambda>r. succeeded r) [run_failed_500] = [] \<and> avg_successes rep = NA)"
proof -
  have s: "succeeded run_ok" by (simp add: example_defs)
  have f: "\<not> succeeded run_failed_500" by (simp add: example_defs)
  have d: "stepsData run_failed_500 \<noteq> []" by (simp add: example_defs)
  have n1: "\<forall>sd\<in>set (stepsData run_ok). ordinary (name (step sd))"
    by (simp add: example_defs ordinary_def)
  have n2: "\<forall>sd\<in>set (stepsData run_failed_500). ordinary (name (step sd))"
    by (simp add: example_defs ordinary_def)
  have l2: "ordinary (failed_step_name run_failed_500)"
    by (simp add: example_defs ordinary_def failed_step_name_def)
  obtain rep1 where r1: "printReport [run_ok] = Inr rep1"
    using printReport_resolves[of "[run_ok]"] s n1 by auto
  obtain rep2 where r2: "printReport [run_failed_500] = Inr rep2"
    using printReport_resolves[of "[run_failed_500]"] d n2 l2 by auto
  have "filter (\<lambda>r. \<not> succeeded r) [run_ok] = [] \<and> avg_failures rep1 = NA"
    using empty_subset_average_is_NA[OF r1] s by simp
  moreover have "filter (\<lambda>r. succeeded r) [run_failed_500] = [] \<and> avg_successes rep2 = NA"
    using empty_subset_average_is_NA[OF r2] f by simp
  ultimately show ?thesis using r1 r2 by blast
qed

text \<open>
  C10. When at least one run succeeded and the step data of the runs that succeeded are
  there and all have the elapsed time 0, the mean is the number 0 and the report shows N/A
  for the average of the successes; likewise for the failures.
\<close>

theorem zero_average_is_shown_as_NA:
  assumes "printReport results = Inr rep"
  shows "(filter (\<lambda>r. succeeded r) results \<noteq> []
          \<and> (\<forall>td\<in>set results. succeeded td \<longrightarrow>
                stepsData td \<noteq> [] \<and> (\<forall>sd\<in>set (stepsData td). responseTime sd = 0))
          \<longrightarrow> computeAvgResponseTimeForTests (filter (\<lambda>r. succeeded r) results) = Num 0
              \<and> avg_successes rep = NA)
       \<and> (filter (\<lambda>r. \<not> succeeded r) results \<noteq> []
          \<and> (\<forall>td\<in>set results. \<not> succeeded td \<longrightarrow>
                stepsData td \<noteq> [] \<and> (\<forall>sd\<in>set (stepsData td). responseTime sd = 0))
          \<longrightarrow> computeAvgResponseTimeForTests (filter (\<lambda>r. \<not> succeeded r) results) = Num 0
              \<and> avg_failures rep = NA)"
proof -
  have z: "computeAvgResponseTimeForTests (filter P results) = Num 0"
    if "filter P results \<noteq> []"
      and "\<forall>td\<in>set results. P td \<longrightarrow>
             stepsData td \<noteq> [] \<and> (\<forall>sd\<in>set (stepsData td). responseTime sd = 0)" for P
    using that by (intro computeAvgResponseTimeForTests_zero) auto
  show ?thesis
    using printReport_averages[OF assms] z[of "\<lambda>r. succeeded r"] z[of "\<lambda>r. \<not> succeeded r"]
    by (auto simp: or_NA_def falsy_def)
qed

theorem zero_average_is_shown_as_NA_witness:
  "(\<exists>rep. printReport [run_instant_ok] = Inr rep
        \<and> filter (\<lambda>r. succeeded r) [run_instant_ok] = [run_instant_ok]
        \<and> map responseTime (stepsData run_instant_ok) = [0]
        \<and> computeAvgResponseTimeForTests (filter (\<lambda>r. succeeded r) [run_instant_ok]) = Num 0
        \<and> avg_successes rep = NA)
   \<and> (\<exists>rep. printReport [run_instant_failed] = Inr rep
        \<and> filter (\<lambda>r. \<not> succeeded r) [run_instant_failed] = [run_instant_failed]
        \<and> map responseTime (stepsData run_instant_failed) = [0]
        \<and> computeAvgResponseTimeForTests (filter (\<lambda>r. \<not> succeeded r) [run_instant_failed]) = Num 0
        \<and> avg_failures rep = NA)"
proof -
  have s: "succeeded run_instant_ok" by (simp add: example_defs)
  have f: "\<not> succeeded run_instant_failed" by (simp add: example_defs)
  have t1: "map responseTime (stepsData run_instant_ok) = [0]" by (simp add: example_defs)
  have t2: "map responseTime (stepsData run_instant_failed) = [0]" by (simp add: example_defs)
  have d1: "stepsData run_instant_ok \<noteq> [] \<and> (\<forall>sd\<in>set (stepsData run_instant_ok). responseTime sd = 0)"
    using t1 by auto
  have d2: "stepsData run_instant_failed \<noteq> [] \<and> (\<forall>sd\<in>set (stepsData run_instant_failed). responseTime sd = 0)"
    using t2 by auto
  have n1: "\<forall>sd\<in>set (stepsData run_instant_ok). ordinary (name (step sd))"
    by (simp add: example_defs ordinary_def)
  have n2: "\<forall>sd\<in>set (stepsData run_instant_failed). ordinary (name (step sd))"
    by (simp add: example_defs ordinary_def)
  have l2: "ordinary (failed_step_name run_instant_failed)"
    by (simp add: example_defs ordinary_def failed_step_name_def)
  obtain rep1 where r1: "printReport [run_instant_ok] = Inr rep1"
    using printReport_resolves[of "[run_instant_ok]"] s n1 by auto
  obtain rep2 where r2: "printReport [run_instant_failed] = Inr rep2"
    using printReport_resolves[of "[run_instant_failed]"] d2 n2 l2 by auto
  have "computeAvgResponseTimeForTests (filter (\<lambda>r. succeeded r) [run_instant_ok]) = Num 0
        \<and> avg_successes rep1 = NA"
    using zero_average_is_shown_as_NA[OF r1] s d1 by simp
  moreover have "computeAvgResponseTimeForTests (filter (\<lambda>r. \<not> succeeded r) [run_instant_failed]) = Num 0
        \<and> avg_failures rep2 = NA"
    using zero_average_is_shown_as_NA[OF r2] f d2 by simp
  ultimately show ?thesis using r1 r2 s f t1 t2 by auto
qed

text \<open>
  The report of the runs of a load test over steps of ordinary names is always produced.
\<close>

lemma results_from_steps: "sd \<in> set (results_from axios k ss) \<Longrightarrow> step sd \<in> set ss"
  by (induction ss arbitrary: k) (auto simp: runStep_step split: if_splits)

lemma virtual_user_steps: "sd \<in> set (stepsData (virtual_user env steps r i)) \<Longrightarrow> step sd \<in> set steps"
  by (auto simp: virtual_user_def settle_def run_chain_closed split: option.splits if_splits
      dest: results_from_steps)

lemma runLoadTest_runs_of_steps:
  assumes "runLoadTest env steps params 1 [] = Inr results"
  shows "\<forall>td\<in>set results. \<forall>sd\<in>set (stepsData td). step sd \<in> set steps"
proof -
  note v = runLoadTest_resolved[OF assms]
  have r: "results = concat (map (wave_runs env steps params) [1..numOfRepetitions params])"
    using runLoadTest_loop[of steps params env 1 "[]"] v assms by simp
  show ?thesis
    unfolding r by (auto simp: wave_runs_def dest: virtual_user_steps)
qed

lemma printReport_after_runLoadTest:
  assumes "runLoadTest env steps params 1 [] = Inr results"
    and "\<forall>s\<in>set steps. ordinary (name s)"
  shows "\<exists>rep. printReport results = Inr rep"
proof -
  note h = runLoadTest_runs_have_steps[OF assms(1)]
  have o: "\<forall>td\<in>set results. \<forall>sd\<in>set (stepsData td). ordinary (name (step sd))"
    using runLoadTest_runs_of_steps[OF assms(1)] assms(2) by blast
  have l: "\<forall>td\<in>set results. ordinary (failed_step_name td)"
  proof
    fix td assume td: "td \<in> set results"
    with h have "last (stepsData td) \<in> set (stepsData td)" by simp
    with o td show "ordinary (failed_step_name td)" by (simp add: failed_step_name_def)
  qed
  have f: "hd results \<in> set results" using h by simp
  show ?thesis
    using h o l f by (intro printReport_resolves) auto
qed

end
